theory Spec2Isabelle
  imports Main "HOL-Library.AList" "HOL-Library.Sublist"
begin

section \<open>Timing constants (services/websocket/ws.go, lines 12-16)\<close>

text \<open>
  \<^verbatim>\<open>time.Duration\<close> counts nanoseconds in a signed 64-bit integer. The three timing
  values are typed constants: Go evaluates constant expressions exactly and refuses to
  compile a constant that does not fit its type. They are therefore modelled as
  \<^typ>\<open>int\<close>, with the division of the source (truncating; both operands are
  positive here), and the 64-bit bound is proved below rather than assumed.
\<close>

definition Second :: int where
  "Second = 1000000000"

definition writeWait :: int where
  "writeWait = 10 * Second"

definition pongWait :: int where
  "pongWait = 60 * Second"

definition pingPeriod :: int where
  "pingPeriod = (pongWait * 9) div 10"

text \<open>
  The read loop arms its deadline with \<^verbatim>\<open>pongWait\<close> (lines 116 and 118); the write
  loop builds its ticker from \<^verbatim>\<open>pingPeriod\<close> (line 132).
\<close>

definition readPump_deadline :: "int \<Rightarrow> int" where
  "readPump_deadline now = now + pongWait"

definition writePump_ticker_period :: int where
  "writePump_ticker_period = pingPeriod"


section \<open>Options and NewHub (ws.go, lines 18-62)\<close>

text \<open>
  \<^verbatim>\<open>CheckOrigin\<close> is a nilable function value: \<open>None\<close> is Go's \<^verbatim>\<open>nil\<close>. The request
  type is left abstract. \<^verbatim>\<open>SendCap\<close> and \<^verbatim>\<open>MaxMessageSize\<close> are only compared with
  zero and stored, so \<^typ>\<open>int\<close> stands for Go's \<^verbatim>\<open>int\<close>.
\<close>

record 'r Options =
  SendCap :: int
  MaxMessageSize :: int
  EnableCompression :: bool
  CheckOrigin :: "('r \<Rightarrow> bool) option"

definition zero_Options :: "'r Options" where
  "zero_Options = \<lparr>SendCap = 0, MaxMessageSize = 0, EnableCompression = False,
     CheckOrigin = None\<rparr>"

definition withDefaults :: "'r Options \<Rightarrow> 'r Options" where
  "withDefaults o0 =
     (let o1 = (if SendCap o0 \<le> 0 then o0\<lparr>SendCap := 128\<rparr> else o0);
          o2 = (if MaxMessageSize o1 \<le> 0 then o1\<lparr>MaxMessageSize := 8192\<rparr> else o1);
          o3 = (if CheckOrigin o2 = None then o2\<lparr>CheckOrigin := Some (\<lambda>r. True)\<rparr> else o2)
      in o3)"

text \<open>
  \<^verbatim>\<open>NewHub\<close> takes a pointer that may be nil (\<open>None\<close>), copies the options, applies
  the defaults and stores the result in the hub. Only the stored options are needed
  here; the hub's live set and channels are modelled in the next section.
\<close>

definition NewHub_opts :: "'r Options option \<Rightarrow> 'r Options" where
  "NewHub_opts opts =
     (let o0 = (case opts of None \<Rightarrow> zero_Options | Some p \<Rightarrow> p)
      in withDefaults o0)"


section \<open>Channels\<close>

text \<open>
  A payload is Go's \<^verbatim>\<open>[]byte\<close>: a list of 8-bit characters. A connection is known to the
  hub by the identity of its \<^verbatim>\<open>*client\<close> pointer, modelled as a number.
\<close>

type_synonym payload = string
type_synonym cid = nat

text \<open>
  A buffered Go channel: the queued values, oldest first, the capacity given to
  \<^verbatim>\<open>make\<close>, and whether \<^verbatim>\<open>close\<close> has been called. Sending on a closed channel and
  closing a closed channel panic; both are values of \<open>panic\<close>.
\<close>

record chan =
  buf :: "payload list"
  cap :: nat
  closed :: bool

datatype panic = SendOnClosedChannel | CloseOfClosedChannel

definition make_chan :: "nat \<Rightarrow> chan" where
  "make_chan n = \<lparr>buf = [], cap = n, closed = False\<rparr>"

text \<open>
  \<^verbatim>\<open>select { case ch <- msg: ... default: ... }\<close>: the send is taken when the buffer has
  room and the default branch otherwise; the flag tells which. (No receiver parked on
  the channel is modelled: a parked receiver means an empty buffer, where a channel of
  capacity at least one takes the send anyway.)
\<close>

definition try_send :: "payload \<Rightarrow> chan \<Rightarrow> panic + (bool \<times> chan)" where
  "try_send msg ch =
     (if closed ch then Inl SendOnClosedChannel
      else if length (buf ch) < cap ch then Inr (True, ch\<lparr>buf := buf ch @ [msg]\<rparr>)
      else Inr (False, ch))"

text \<open>
  A receive, \<^verbatim>\<open>v, ok := <-ch\<close>: the oldest queued value with \<open>ok\<close> true; on an empty
  closed channel the zero value with \<open>ok\<close> false; on an empty open channel nothing is
  ready (\<open>None\<close>): the default branch of a \<^verbatim>\<open>select\<close> runs, and a blocking receive waits.
\<close>

definition recv :: "chan \<Rightarrow> ((payload \<times> bool) \<times> chan) option" where
  "recv ch =
     (case buf ch of
        m # rest \<Rightarrow> Some ((m, True), ch\<lparr>buf := rest\<rparr>)
      | [] \<Rightarrow> if closed ch then Some (([], False), ch) else None)"

definition close_chan :: "chan \<Rightarrow> panic + chan" where
  "close_chan ch = (if closed ch then Inl CloseOfClosedChannel else Inr (ch\<lparr>closed := True\<rparr>))"


section \<open>The hub and its loop (ws.go, lines 38-99)\<close>

text \<open>
  Frame types of the transport, as the source names them.
\<close>

datatype msgtype = TextMessage | BinaryMessage | CloseMessage | PingMessage | PongMessage

text \<open>
  What the program does to a connection is recorded, in order, in a log that the
  program itself does not read: payloads put on the connection's queue (\<open>Enq\<close>),
  payloads the hub took back off it (\<open>Drop\<close>), closes of the queue (\<open>Close\<close>), payloads
  the write loop received from it (\<open>Recv\<close>), and frames the write loop handed to the
  transport (\<open>Wrote\<close>).
\<close>

datatype effect =
    Enq cid payload
  | Drop cid payload
  | Close cid
  | Recv cid payload
  | Wrote cid msgtype payload

text \<open>
  The state the hub's loop works on. \<open>clients\<close> is the map \<^verbatim>\<open>map[*client]bool\<close>, kept
  as an association list whose order is the order in which \<^verbatim>\<open>range\<close> visits the keys
  (Go leaves that order open). \<open>send\<close> holds, for every client, the channel in its
  \<^verbatim>\<open>send\<close> field. \<open>sendcap\<close> is \<^verbatim>\<open>h.opts.SendCap\<close>. \<open>next_client\<close> is the identity
  the next allocated client gets. The hub's three intake channels are not part of the
  state: the loop is modelled by the event it receives in each round.
\<close>

record state =
  clients :: "(cid \<times> bool) list"
  send :: "cid \<Rightarrow> chan"
  sendcap :: nat
  next_client :: cid
  trace :: "effect list"

definition NewHub :: "'r Options option \<Rightarrow> state" where
  "NewHub opts =
     \<lparr>clients = [],
      send = (\<lambda>c. make_chan 0),
      sendcap = nat (SendCap (NewHub_opts opts)),
      next_client = 0,
      trace = []\<rparr>"

text \<open>\<^verbatim>\<open>h.clients[c]\<close>: the stored flag, and \<^verbatim>\<open>false\<close> for a key that is not in the map.\<close>

definition live :: "state \<Rightarrow> cid \<Rightarrow> bool" where
  "live s c = (case map_of (clients s) c of Some b \<Rightarrow> b | None \<Rightarrow> False)"

datatype hub_event = Register cid | Unregister cid | Broadcast payload

text \<open>
  The body of the \<^verbatim>\<open>range\<close> loop for one client (lines 76-90): a non-blocking send; on
  the default branch a non-blocking receive that throws the received value away,
  a second non-blocking send, and on its default branch \<^verbatim>\<open>close(c.send)\<close> followed by
  \<^verbatim>\<open>delete(h.clients, c)\<close>.
\<close>

definition broadcast_one :: "payload \<Rightarrow> cid \<Rightarrow> state \<Rightarrow> panic + state" where
  "broadcast_one msg c s =
     (case try_send msg (send s c) of
        Inl e \<Rightarrow> Inl e
      | Inr (True, ch) \<Rightarrow>
          Inr (s\<lparr>send := (send s)(c := ch), trace := trace s @ [Enq c msg]\<rparr>)
      | Inr (False, _) \<Rightarrow>
          (let s1 = (case recv (send s c) of
                       Some ((old, ok), ch1) \<Rightarrow>
                         s\<lparr>send := (send s)(c := ch1),
                           trace := trace s @ (if ok then [Drop c old] else [])\<rparr>
                     | None \<Rightarrow> s)
           in case try_send msg (send s1 c) of
                Inl e \<Rightarrow> Inl e
              | Inr (True, ch2) \<Rightarrow>
                  Inr (s1\<lparr>send := (send s1)(c := ch2), trace := trace s1 @ [Enq c msg]\<rparr>)
              | Inr (False, _) \<Rightarrow>
                  (case close_chan (send s1 c) of
                     Inl e \<Rightarrow> Inl e
                   | Inr ch3 \<Rightarrow>
                       Inr (s1\<lparr>send := (send s1)(c := ch3),
                               clients := AList.delete c (clients s1),
                               trace := trace s1 @ [Close c]\<rparr>))))"

text \<open>
  \<^verbatim>\<open>for c := range h.clients\<close>: the keys are visited one after the other. The body
  deletes only the key it is visiting, so the keys still to come are those of the map
  at the start of the loop.
\<close>

primrec broadcast_all :: "payload \<Rightarrow> cid list \<Rightarrow> state \<Rightarrow> panic + state" where
  "broadcast_all msg [] s = Inr s"
| "broadcast_all msg (c # cs) s =
     (case broadcast_one msg c s of
        Inl e \<Rightarrow> Inl e
      | Inr s' \<Rightarrow> broadcast_all msg cs s')"

text \<open>One round of \<^verbatim>\<open>Hub.Run\<close>: the \<^verbatim>\<open>select\<close> over the three intake channels.\<close>

fun Hub_Run_step :: "hub_event \<Rightarrow> state \<Rightarrow> panic + state" where
  "Hub_Run_step (Register c) s = Inr (s\<lparr>clients := AList.update c True (clients s)\<rparr>)"
| "Hub_Run_step (Unregister c) s =
     (if live s c then
        (case close_chan (send s c) of
           Inl e \<Rightarrow> Inl e
         | Inr ch \<Rightarrow>
             Inr (s\<lparr>clients := AList.delete c (clients s),
                    send := (send s)(c := ch),
                    trace := trace s @ [Close c]\<rparr>))
      else Inr s)"
| "Hub_Run_step (Broadcast msg) s = broadcast_all msg (map fst (clients s)) s"


section \<open>The two loops of a connection (ws.go, lines 103-157)\<close>

text \<open>
  One round of \<^verbatim>\<open>readPump\<close>: \<^verbatim>\<open>ReadMessage\<close> returns a frame type, the payload and an
  error. On an error the loop ends and the deferred function hands the client to the
  hub's unregister channel; otherwise the payload, and only the payload, goes to the
  hub's broadcast channel.
\<close>

datatype read_result = ReadOk msgtype payload | ReadErr

definition readPump_round :: "cid \<Rightarrow> read_result \<Rightarrow> hub_event" where
  "readPump_round c r =
     (case r of
        ReadErr \<Rightarrow> Unregister c
      | ReadOk t message \<Rightarrow> Broadcast message)"

text \<open>
  One round of \<^verbatim>\<open>writePump\<close> that takes the first \<^verbatim>\<open>select\<close> case: a receive from
  \<^verbatim>\<open>c.send\<close>. A closed, empty channel makes the loop write a close frame (and return);
  a payload is written as one text frame. When nothing is ready the round does not
  happen. The result of \<^verbatim>\<open>WriteMessage\<close> only decides whether the loop goes on, and the
  log records the call.
\<close>

definition writePump_recv :: "cid \<Rightarrow> state \<Rightarrow> state" where
  "writePump_recv c s =
     (case recv (send s c) of
        None \<Rightarrow> s
      | Some ((message, ok), ch) \<Rightarrow>
          if \<not> ok then s\<lparr>trace := trace s @ [Wrote c CloseMessage []]\<rparr>
          else s\<lparr>send := (send s)(c := ch),
                 trace := trace s @ [Recv c message, Wrote c TextMessage message]\<rparr>)"

text \<open>The second \<^verbatim>\<open>select\<close> case: the ticker fires and a ping frame is written.\<close>

definition writePump_tick :: "cid \<Rightarrow> state \<Rightarrow> state" where
  "writePump_tick c s = s\<lparr>trace := trace s @ [Wrote c PingMessage []]\<rparr>"


section \<open>ServeWs and the events of a run (ws.go, lines 161-184)\<close>

text \<open>
  \<^verbatim>\<open>ServeWs\<close> after a successful upgrade: a new client with a fresh channel of capacity
  \<^verbatim>\<open>h.opts.SendCap\<close> is allocated and handed to the hub's register channel, which is
  unbuffered, so the hub's round for it has run when \<^verbatim>\<open>ServeWs\<close> goes on.
\<close>

definition ServeWs :: "state \<Rightarrow> panic + state" where
  "ServeWs s =
     (let cl = next_client s;
          s1 = s\<lparr>send := (send s)(cl := make_chan (sendcap s)), next_client := Suc cl\<rparr>
      in Hub_Run_step (Register cl) s1)"

text \<open>
  A run is a sequence of events. The register and unregister channels are private to
  the package: \<^verbatim>\<open>ServeWs\<close> is the only sender on the first and \<^verbatim>\<open>readPump\<close> on the
  second. Broadcasts come from a read loop or from \<^verbatim>\<open>Hub.Broadcast\<close>; the broadcast
  channel is first-in first-out, so the hub's rounds for them follow the order in which
  they were submitted, which is the order of the events here. Whether a loop of a
  connection has already returned is not tracked: an event names a round that the
  loop runs, and a run of the program has no such event after the loop's return.
\<close>

datatype event =
    Connect
  | Reader cid read_result
  | Api payload
  | WriterRecv cid
  | WriterTick cid

fun step :: "event \<Rightarrow> state \<Rightarrow> panic + state" where
  "step Connect s = ServeWs s"
| "step (Reader c r) s = Hub_Run_step (readPump_round c r) s"
| "step (Api b) s = Hub_Run_step (Broadcast b) s"
| "step (WriterRecv c) s = Inr (writePump_recv c s)"
| "step (WriterTick c) s = Inr (writePump_tick c s)"

primrec run :: "event list \<Rightarrow> state \<Rightarrow> panic + state" where
  "run [] s = Inr s"
| "run (e # es) s = (case step e s of Inl p \<Rightarrow> Inl p | Inr s' \<Rightarrow> run es s')"


section \<open>Observations on the log\<close>

text \<open>The payloads put on the queue of \<open>c\<close>, in order.\<close>

fun enqs :: "cid \<Rightarrow> effect list \<Rightarrow> payload list" where
  "enqs c [] = []"
| "enqs c (Enq c' m # tr) = (if c' = c then m # enqs c tr else enqs c tr)"
| "enqs c (_ # tr) = enqs c tr"

text \<open>The payloads the write loop of \<open>c\<close> received from the queue, in order.\<close>

fun delivered :: "cid \<Rightarrow> effect list \<Rightarrow> payload list" where
  "delivered c [] = []"
| "delivered c (Recv c' m # tr) = (if c' = c then m # delivered c tr else delivered c tr)"
| "delivered c (_ # tr) = delivered c tr"

text \<open>The frames the write loop of \<open>c\<close> handed to the transport, in order.\<close>

fun wrote :: "cid \<Rightarrow> effect list \<Rightarrow> (msgtype \<times> payload) list" where
  "wrote c [] = []"
| "wrote c (Wrote c' t m # tr) = (if c' = c then (t, m) # wrote c tr else wrote c tr)"
| "wrote c (_ # tr) = wrote c tr"

text \<open>How often the queue of \<open>c\<close> was closed.\<close>

definition closes :: "cid \<Rightarrow> effect list \<Rightarrow> nat" where
  "closes c tr = length (filter (\<lambda>e. e = Close c) tr)"

text \<open>The broadcasts the hub receives during a run, in order.\<close>

fun broadcasts :: "event list \<Rightarrow> payload list" where
  "broadcasts [] = []"
| "broadcasts (Reader c (ReadOk t m) # es) = m # broadcasts es"
| "broadcasts (Api b # es) = b # broadcasts es"
| "broadcasts (_ # es) = broadcasts es"


section \<open>The backpressure policy on one queue, and what a round of fan-out computes\<close>

text \<open>
  The definitions of this section are not translations of source functions. They state,
  on a single channel, what the loop body is meant to do (enqueue; otherwise give up the
  oldest entry, if there is one, and enqueue; otherwise close), which entries it writes
  to the log, and what the whole \<^verbatim>\<open>range\<close> loop amounts to. The lemmas
  \<open>broadcast_one_eq\<close> and \<open>broadcast_all_eq\<close> below prove that the translated loop
  computes exactly this on open channels.
\<close>

definition drop_oldest :: "chan \<Rightarrow> chan" where
  "drop_oldest ch = (case buf ch of [] \<Rightarrow> ch | old # rest \<Rightarrow> ch\<lparr>buf := rest\<rparr>)"

definition offer :: "payload \<Rightarrow> chan \<Rightarrow> chan" where
  "offer msg ch =
     (if length (buf ch) < cap ch then ch\<lparr>buf := buf ch @ [msg]\<rparr>
      else if length (buf (drop_oldest ch)) < cap ch
           then (drop_oldest ch)\<lparr>buf := buf (drop_oldest ch) @ [msg]\<rparr>
      else (drop_oldest ch)\<lparr>closed := True\<rparr>)"

definition evicts :: "chan \<Rightarrow> bool" where
  "evicts ch \<longleftrightarrow> \<not> length (buf ch) < cap ch \<and> \<not> length (buf (drop_oldest ch)) < cap ch"

definition offer_log :: "payload \<Rightarrow> cid \<Rightarrow> chan \<Rightarrow> effect list" where
  "offer_log msg c ch =
     (if length (buf ch) < cap ch then [Enq c msg]
      else (case buf ch of [] \<Rightarrow> [] | old # rest \<Rightarrow> [Drop c old])
           @ (if length (buf (drop_oldest ch)) < cap ch then [Enq c msg] else [Close c]))"

definition fanout :: "payload \<Rightarrow> cid list \<Rightarrow> state \<Rightarrow> state" where
  "fanout msg cs s =
     s\<lparr>send := (\<lambda>c. if c \<in> set cs then offer msg (send s c) else send s c),
       clients := filter (\<lambda>(k, v). \<not> (k \<in> set cs \<and> evicts (send s k))) (clients s),
       trace := trace s @ concat (map (\<lambda>c. offer_log msg c (send s c)) cs)\<rparr>"

text \<open>
  The invariant of the states a run reaches from \<open>NewHub\<close>: the keys of the map are
  distinct and flagged true; the queue of a client in the map is open, has capacity at
  least one and holds no more than its capacity; identities not yet handed out have
  open queues; the log holds one \<open>Close\<close> for a closed queue and none for an open one.
\<close>

definition hub_inv :: "state \<Rightarrow> bool" where
  "hub_inv s \<longleftrightarrow>
     distinct (map fst (clients s))
   \<and> (\<forall>c \<in> set (map fst (clients s)).
         live s c \<and> \<not> closed (send s c) \<and> 1 \<le> cap (send s c)
         \<and> length (buf (send s c)) \<le> cap (send s c) \<and> c < next_client s)
   \<and> (\<forall>c. next_client s \<le> c \<longrightarrow> \<not> closed (send s c))
   \<and> (\<forall>c. closes c (trace s) = (if closed (send s c) then 1 else 0))
   \<and> 1 \<le> sendcap s"


section \<open>The administrative broadcast endpoint (main.go, lines 13-33)\<close>

text \<open>
  A decoded JSON value. The body of a request is \<open>None\<close> when it is not well-formed
  JSON and the decoded value otherwise.
\<close>

datatype jvalue =
    JNull
  | JBool bool
  | JNum int
  | JStr string
  | JArr "jvalue list"
  | JObj "(string \<times> jvalue) list"

record broadcastReq =
  Message :: string

datatype bind_error = SyntaxError | UnmarshalTypeError | ValidationError

text \<open>
  Modelled from the spec: \<^verbatim>\<open>ShouldBindJSON\<close> and the validator behind the struct tag
  \<^verbatim>\<open>binding:"required"\<close> belong to the gin library, which is not under \<^verbatim>\<open>src/\<close>. The
  spec calls \<^verbatim>\<open>message\<close> a required string field and answers a missing field with a
  client error. Binding has two stages. Decoding starts from the zero value of the
  struct (the empty string) and stores the member \<^verbatim>\<open>message\<close> of the object when it is
  there; a member that is \<^verbatim>\<open>null\<close> leaves the field as it is, and a member or a body of
  another type is an error. (Members are looked up by their exact name and objects are
  taken to have no repeated member.) Validation of \<^verbatim>\<open>required\<close> then fails when the field
  still has its zero value: it cannot tell a missing member from an empty string.
\<close>

definition decode_broadcastReq :: "jvalue option \<Rightarrow> bind_error + broadcastReq" where
  "decode_broadcastReq body =
     (case body of
        None \<Rightarrow> Inl SyntaxError
      | Some (JObj members) \<Rightarrow>
          (case map_of members ''message'' of
             None \<Rightarrow> Inr \<lparr>Message = ''''\<rparr>
           | Some (JStr m) \<Rightarrow> Inr \<lparr>Message = m\<rparr>
           | Some JNull \<Rightarrow> Inr \<lparr>Message = ''''\<rparr>
           | Some _ \<Rightarrow> Inl UnmarshalTypeError)
      | Some JNull \<Rightarrow> Inr \<lparr>Message = ''''\<rparr>
      | Some _ \<Rightarrow> Inl UnmarshalTypeError)"

definition validate_required :: "broadcastReq \<Rightarrow> bool" where
  "validate_required req \<longleftrightarrow> Message req \<noteq> ''''"

definition ShouldBindJSON :: "jvalue option \<Rightarrow> bind_error + broadcastReq" where
  "ShouldBindJSON body =
     (case decode_broadcastReq body of
        Inl err \<Rightarrow> Inl err
      | Inr req \<Rightarrow> if validate_required req then Inr req else Inl ValidationError)"

text \<open>The two status codes of \<^verbatim>\<open>net/http\<close> that the handler uses.\<close>

definition StatusOK :: nat where
  "StatusOK = 200"

definition StatusBadRequest :: nat where
  "StatusBadRequest = 400"

text \<open>
  The response written with \<^verbatim>\<open>c.JSON\<close>: a status code and an object (\<^verbatim>\<open>gin.H\<close>), given
  by its members as the source lists them.
\<close>

record response =
  status :: nat
  json :: "(string \<times> jvalue) list"

text \<open>
  The handler returned by \<^verbatim>\<open>broadcastAPI\<close>. \<^verbatim>\<open>json.Marshal\<close> is a library function and
  is a parameter here; so is the reading of the clock, already formatted by
  \<^verbatim>\<open>time.Now().Format(time.RFC3339)\<close>. The result is the response and the events
  handed to the hub through \<^verbatim>\<open>h.Broadcast\<close>.
\<close>

definition broadcastAPI ::
  "((string \<times> jvalue) list \<Rightarrow> payload) \<Rightarrow> string \<Rightarrow> jvalue option
     \<Rightarrow> response \<times> hub_event list" where
  "broadcastAPI json_Marshal now_RFC3339 body =
     (case ShouldBindJSON body of
        Inl err \<Rightarrow>
          (\<lparr>status = StatusBadRequest, json = [(''error'', JStr ''message is required'')]\<rparr>,
           [])
      | Inr req \<Rightarrow>
          (let payload = json_Marshal
                 [(''type'', JStr ''server_broadcast''),
                  (''message'', JStr (Message req)),
                  (''time'', JStr now_RFC3339)]
           in (\<lparr>status = StatusOK, json = [(''ok'', JBool True)]\<rparr>, [Broadcast payload])))"


section \<open>Properties\<close>

subsection \<open>Logs, the loop body and the invariant\<close>

text \<open>
  The loop body and the \<^verbatim>\<open>range\<close> loop are first shown to compute \<open>offer\<close> and
  \<open>fanout\<close> on open queues, with no assumption on capacities. The invariant \<open>hub_inv\<close>
  is then shown to hold for a new hub and to be kept by every event, so that no run
  from a new hub panics.
\<close>

lemma withDefaults_SendCap_pos: "1 \<le> SendCap (withDefaults o0)"
  by (simp add: withDefaults_def Let_def)

lemma broadcast_one_eq:
  assumes "\<not> closed (send s c)"
  shows "broadcast_one msg c s =
     Inr (s\<lparr>send := (send s)(c := offer msg (send s c)),
            clients := (if evicts (send s c) then AList.delete c (clients s) else clients s),
            trace := trace s @ offer_log msg c (send s c)\<rparr>)"
  using assms
  by (cases "buf (send s c)")
     (auto simp: broadcast_one_def try_send_def recv_def close_chan_def offer_def evicts_def
        offer_log_def drop_oldest_def Let_def)

lemma offer_closed: "closed (offer msg ch) = (closed ch \<or> evicts ch)"
  by (auto simp: offer_def evicts_def drop_oldest_def split: list.splits)

lemma offer_cap [simp]: "cap (offer msg ch) = cap ch"
  by (auto simp: offer_def drop_oldest_def split: list.splits)

lemma fanout_Nil: "fanout msg [] s = s"
  by (simp add: fanout_def)

lemma fanout_Cons:
  assumes "a \<notin> set cs"
  shows "fanout msg cs
          (s\<lparr>send := (send s)(a := offer msg (send s a)),
             clients := (if evicts (send s a) then AList.delete a (clients s) else clients s),
             trace := trace s @ offer_log msg a (send s a)\<rparr>)
         = fanout msg (a # cs) s" (is "fanout msg cs ?s1 = _")
proof (rule state.equality)
  show "send (fanout msg cs ?s1) = send (fanout msg (a # cs) s)"
    using assms by (auto simp: fanout_def fun_eq_iff)
  show "clients (fanout msg cs ?s1) = clients (fanout msg (a # cs) s)"
    using assms
    by (auto simp: fanout_def AList.delete_eq intro!: filter_cong split: if_splits)
  have m: "map (\<lambda>c. offer_log msg c (if c = a then offer msg (send s a) else send s c)) cs
           = map (\<lambda>c. offer_log msg c (send s c)) cs"
    using assms by (intro map_cong) auto
  show "trace (fanout msg cs ?s1) = trace (fanout msg (a # cs) s)"
    by (simp add: fanout_def m)
qed (simp_all add: fanout_def)

lemma broadcast_all_eq:
  "distinct cs \<Longrightarrow> \<forall>c\<in>set cs. \<not> closed (send s c) \<Longrightarrow>
   broadcast_all msg cs s = Inr (fanout msg cs s)"
proof (induction cs arbitrary: s)
  case Nil
  then show ?case by (simp add: fanout_Nil)
next
  case (Cons a cs)
  let ?s1 = "s\<lparr>send := (send s)(a := offer msg (send s a)),
            clients := (if evicts (send s a) then AList.delete a (clients s) else clients s),
            trace := trace s @ offer_log msg a (send s a)\<rparr>"
  have one: "broadcast_one msg a s = Inr ?s1"
    using Cons.prems by (simp add: broadcast_one_eq)
  have "distinct cs" "\<forall>c\<in>set cs. \<not> closed (send ?s1 c)"
    using Cons.prems by auto
  from Cons.IH[OF this] have "broadcast_all msg cs ?s1 = Inr (fanout msg cs ?s1)" .
  moreover have "fanout msg cs ?s1 = fanout msg (a # cs) s"
    using Cons.prems by (intro fanout_Cons) simp
  ultimately show ?case
    using one by simp
qed

lemma enqs_append [simp]: "enqs c (tr @ tr') = enqs c tr @ enqs c tr'"
  by (induction c tr rule: enqs.induct) simp_all

lemma delivered_append [simp]: "delivered c (tr @ tr') = delivered c tr @ delivered c tr'"
  by (induction c tr rule: delivered.induct) simp_all

lemma wrote_append [simp]: "wrote c (tr @ tr') = wrote c tr @ wrote c tr'"
  by (induction c tr rule: wrote.induct) simp_all

lemma closes_append [simp]: "closes c (tr @ tr') = closes c tr + closes c tr'"
  by (simp add: closes_def)

lemma closes_Nil [simp]: "closes c [] = 0"
  by (simp add: closes_def)

lemma closes_Cons [simp]: "closes c (e # tr) = (if e = Close c then 1 else 0) + closes c tr"
  by (simp add: closes_def)

lemma enqs_offer_log:
  "enqs c (offer_log msg c' ch) = (if c' = c \<and> \<not> evicts ch then [msg] else [])"
  by (auto simp: offer_log_def evicts_def split: list.splits)

lemma delivered_offer_log [simp]: "delivered c (offer_log msg c' ch) = []"
  by (auto simp: offer_log_def split: list.splits)

lemma wrote_offer_log [simp]: "wrote c (offer_log msg c' ch) = []"
  by (auto simp: offer_log_def split: list.splits)

lemma closes_offer_log:
  "closes c (offer_log msg c' ch) = (if c' = c \<and> evicts ch then 1 else 0)"
  by (auto simp: offer_log_def evicts_def split: list.splits)

lemma enqs_fan:
  "distinct cs \<Longrightarrow>
   enqs c (concat (map (\<lambda>c'. offer_log msg c' (f c')) cs))
     = (if c \<in> set cs \<and> \<not> evicts (f c) then [msg] else [])"
  by (induction cs) (auto simp: enqs_offer_log)

lemma delivered_fan [simp]:
  "delivered c (concat (map (\<lambda>c'. offer_log msg c' (f c')) cs)) = []"
  by (induction cs) auto

lemma wrote_fan [simp]:
  "wrote c (concat (map (\<lambda>c'. offer_log msg c' (f c')) cs)) = []"
  by (induction cs) auto

lemma closes_fan:
  "distinct cs \<Longrightarrow>
   closes c (concat (map (\<lambda>c'. offer_log msg c' (f c')) cs))
     = (if c \<in> set cs \<and> evicts (f c) then 1 else 0)"
  by (induction cs) (auto simp: closes_offer_log)

lemma no_evict:
  "1 \<le> cap ch \<Longrightarrow> length (buf ch) \<le> cap ch \<Longrightarrow> \<not> evicts ch"
  by (auto simp: evicts_def drop_oldest_def split: list.splits)

lemma buf_offer:
  "1 \<le> cap ch \<Longrightarrow> length (buf ch) \<le> cap ch \<Longrightarrow>
   buf (offer msg ch) = (if length (buf ch) < cap ch then buf ch else tl (buf ch)) @ [msg]"
  by (auto simp: offer_def drop_oldest_def split: list.splits)

lemma length_buf_offer:
  "length (buf ch) \<le> cap ch \<Longrightarrow> length (buf (offer msg ch)) \<le> cap ch"
  by (auto simp: offer_def drop_oldest_def split: list.splits)

lemma live_keys: "live s c \<Longrightarrow> c \<in> set (map fst (clients s))"
  by (auto simp: live_def map_of_eq_None_iff split: option.splits dest: map_of_SomeD
      intro: rev_image_eqI)

lemma hub_inv_distinct: "hub_inv s \<Longrightarrow> distinct (map fst (clients s))"
  by (simp add: hub_inv_def)

lemma hub_inv_key:
  assumes "hub_inv s" "c \<in> set (map fst (clients s))"
  shows "live s c" "\<not> closed (send s c)" "1 \<le> cap (send s c)"
    "length (buf (send s c)) \<le> cap (send s c)" "c < next_client s"
  using assms unfolding hub_inv_def by blast+

lemma hub_inv_live: "hub_inv s \<Longrightarrow> live s c \<longleftrightarrow> c \<in> set (map fst (clients s))"
  using hub_inv_key(1) live_keys by blast

lemma hub_inv_closes: "hub_inv s \<Longrightarrow> closes c (trace s) = (if closed (send s c) then 1 else 0)"
  unfolding hub_inv_def by blast

lemma hub_inv_no_evict:
  "hub_inv s \<Longrightarrow> c \<in> set (map fst (clients s)) \<Longrightarrow> \<not> evicts (send s c)"
  by (intro no_evict hub_inv_key)

lemma fanout_clients:
  assumes "hub_inv s"
  shows "clients (fanout msg (map fst (clients s)) s) = clients s"
proof -
  have "\<forall>x\<in>set (clients s). \<not> evicts (send s (fst x))"
    using hub_inv_no_evict[OF assms] by simp
  then show ?thesis
    by (auto simp: fanout_def filter_id_conv)
qed

lemma Broadcast_eq:
  assumes "hub_inv s"
  shows "Hub_Run_step (Broadcast msg) s = Inr (fanout msg (map fst (clients s)) s)"
  using hub_inv_distinct[OF assms] hub_inv_key(2)[OF assms]
  by (simp add: broadcast_all_eq)

lemma hub_invI:
  assumes "distinct (map fst (clients s))"
    and "\<And>c. c \<in> set (map fst (clients s)) \<Longrightarrow> live s c"
    and "\<And>c. c \<in> set (map fst (clients s)) \<Longrightarrow> \<not> closed (send s c)"
    and "\<And>c. c \<in> set (map fst (clients s)) \<Longrightarrow> 1 \<le> cap (send s c)"
    and "\<And>c. c \<in> set (map fst (clients s)) \<Longrightarrow> length (buf (send s c)) \<le> cap (send s c)"
    and "\<And>c. c \<in> set (map fst (clients s)) \<Longrightarrow> c < next_client s"
    and "\<And>c. next_client s \<le> c \<Longrightarrow> \<not> closed (send s c)"
    and "\<And>c. closes c (trace s) = (if closed (send s c) then 1 else 0)"
    and "1 \<le> sendcap s"
  shows "hub_inv s"
  unfolding hub_inv_def using assms by blast

lemma hub_inv_fresh: "hub_inv s \<Longrightarrow> next_client s \<le> c \<Longrightarrow> \<not> closed (send s c)"
  unfolding hub_inv_def by blast

lemma hub_inv_sendcap: "hub_inv s \<Longrightarrow> 1 \<le> sendcap s"
  unfolding hub_inv_def by blast

lemma live_cong: "clients s' = clients s \<Longrightarrow> live s' c = live s c"
  by (simp add: live_def)

lemma fanout_inv:
  assumes "hub_inv s"
  shows "hub_inv (fanout msg (map fst (clients s)) s)" (is "hub_inv ?s'")
proof (rule hub_invI)
  note cl = fanout_clients[OF assms, of msg]
  have snd: "send ?s' c = (if c \<in> set (map fst (clients s)) then offer msg (send s c) else send s c)" for c
    by (simp add: fanout_def)
  have cls: "closed (send ?s' c) = closed (send s c)" for c
    using hub_inv_no_evict[OF assms, of c] by (simp add: snd offer_closed)
  show "distinct (map fst (clients ?s'))"
    using hub_inv_distinct[OF assms] by (simp add: cl)
  show "live ?s' c" if "c \<in> set (map fst (clients ?s'))" for c
    using that hub_inv_key(1)[OF assms, of c] cl by (simp add: live_def)
  show "\<not> closed (send ?s' c)" if "c \<in> set (map fst (clients ?s'))" for c
    using that hub_inv_key(2)[OF assms, of c] by (simp add: cl cls)
  show "1 \<le> cap (send ?s' c)" if "c \<in> set (map fst (clients ?s'))" for c
    using that hub_inv_key(3)[OF assms, of c] by (simp add: cl snd)
  show "length (buf (send ?s' c)) \<le> cap (send ?s' c)" if "c \<in> set (map fst (clients ?s'))" for c
    using that hub_inv_key(4)[OF assms, of c] length_buf_offer[of "send s c" msg]
    by (simp add: cl snd)
  show "c < next_client ?s'" if "c \<in> set (map fst (clients ?s'))" for c
    using that hub_inv_key(5)[OF assms, of c] by (simp add: cl) (simp add: fanout_def)
  show "\<not> closed (send ?s' c)" if "next_client ?s' \<le> c" for c
    using that hub_inv_fresh[OF assms, of c] by (simp add: cls) (simp add: fanout_def)
  show "closes c (trace ?s') = (if closed (send ?s' c) then 1 else 0)" for c
    using hub_inv_closes[OF assms, of c] hub_inv_no_evict[OF assms, of c]
      closes_fan[OF hub_inv_distinct[OF assms], of c msg "send s"]
    by (simp add: cls) (simp add: fanout_def)
  show "1 \<le> sendcap ?s'"
    using hub_inv_sendcap[OF assms] by (simp add: fanout_def)
qed

lemma Unregister_absent: "\<not> live s c \<Longrightarrow> Hub_Run_step (Unregister c) s = Inr s"
  by simp

lemma Unregister_live:
  assumes "hub_inv s" "live s c"
  shows "Hub_Run_step (Unregister c) s =
     Inr (s\<lparr>clients := AList.delete c (clients s),
            send := (send s)(c := (send s c)\<lparr>closed := True\<rparr>),
            trace := trace s @ [Close c]\<rparr>)"
  using assms hub_inv_key(2)[OF assms(1), of c] hub_inv_live[OF assms(1), of c]
  by (simp add: close_chan_def)

lemma Unregister_live_inv:
  assumes "hub_inv s" "live s c"
  shows "hub_inv (s\<lparr>clients := AList.delete c (clients s),
            send := (send s)(c := (send s c)\<lparr>closed := True\<rparr>),
            trace := trace s @ [Close c]\<rparr>)" (is "hub_inv ?s'")
proof (rule hub_invI)
  have keys: "set (map fst (clients ?s')) = set (map fst (clients s)) - {c}"
    by (simp add: delete_keys)
  have ck: "c \<in> set (map fst (clients s))"
    using assms hub_inv_live by blast
  show "distinct (map fst (clients ?s'))"
    using hub_inv_distinct[OF assms(1)] by (simp add: distinct_delete)
  show "live ?s' x" if "x \<in> set (map fst (clients ?s'))" for x
    using that hub_inv_key(1)[OF assms(1), of x] by (auto simp: delete_keys live_def)
  show "\<not> closed (send ?s' x)" if "x \<in> set (map fst (clients ?s'))" for x
    using that hub_inv_key(2)[OF assms(1), of x] by (auto simp: delete_keys)
  show "1 \<le> cap (send ?s' x)" if "x \<in> set (map fst (clients ?s'))" for x
    using that hub_inv_key(3)[OF assms(1), of x] by (auto simp: delete_keys)
  show "length (buf (send ?s' x)) \<le> cap (send ?s' x)" if "x \<in> set (map fst (clients ?s'))" for x
    using that hub_inv_key(4)[OF assms(1), of x] by (auto simp: delete_keys)
  show "x < next_client ?s'" if "x \<in> set (map fst (clients ?s'))" for x
    using that hub_inv_key(5)[OF assms(1), of x] by (auto simp: delete_keys)
  show "\<not> closed (send ?s' x)" if "next_client ?s' \<le> x" for x
    using that hub_inv_fresh[OF assms(1), of x] hub_inv_key(5)[OF assms(1) ck] by auto
  show "closes x (trace ?s') = (if closed (send ?s' x) then 1 else 0)" for x
    using hub_inv_closes[OF assms(1), of x] hub_inv_key(2)[OF assms(1) ck] by auto
  show "1 \<le> sendcap ?s'"
    using hub_inv_sendcap[OF assms(1)] by simp
qed

lemma ServeWs_eq:
  "ServeWs s =
     Inr (s\<lparr>send := (send s)(next_client s := make_chan (sendcap s)),
            next_client := Suc (next_client s),
            clients := AList.update (next_client s) True (clients s)\<rparr>)"
  by (simp add: ServeWs_def Let_def)

lemma ServeWs_inv:
  assumes "hub_inv s"
  shows "hub_inv (s\<lparr>send := (send s)(next_client s := make_chan (sendcap s)),
            next_client := Suc (next_client s),
            clients := AList.update (next_client s) True (clients s)\<rparr>)" (is "hub_inv ?s'")
proof (rule hub_invI)
  have fresh: "next_client s \<notin> set (map fst (clients s))"
    using hub_inv_key(5)[OF assms, of "next_client s"] by auto
  have keys: "set (map fst (clients ?s')) = insert (next_client s) (set (map fst (clients s)))"
    using dom_update[of "next_client s" True "clients s"] by simp
  have lv: "live ?s' x = (x = next_client s \<or> live s x)" for x
    by (simp add: live_def update_conv')
  show "distinct (map fst (clients ?s'))"
    using hub_inv_distinct[OF assms] by (simp add: distinct_update)
  show "live ?s' x" if "x \<in> set (map fst (clients ?s'))" for x
    using that hub_inv_key(1)[OF assms, of x] unfolding keys lv by auto
  show "\<not> closed (send ?s' x)" if "x \<in> set (map fst (clients ?s'))" for x
    using that hub_inv_key(2)[OF assms, of x] unfolding keys by (auto simp: make_chan_def)
  show "1 \<le> cap (send ?s' x)" if "x \<in> set (map fst (clients ?s'))" for x
    using that hub_inv_key(3)[OF assms, of x] hub_inv_sendcap[OF assms] unfolding keys
    by (auto simp: make_chan_def)
  show "length (buf (send ?s' x)) \<le> cap (send ?s' x)" if "x \<in> set (map fst (clients ?s'))" for x
    using that hub_inv_key(4)[OF assms, of x] unfolding keys by (auto simp: make_chan_def)
  show "x < next_client ?s'" if "x \<in> set (map fst (clients ?s'))" for x
  proof -
    from that have "x = next_client s \<or> x \<in> set (map fst (clients s))"
      unfolding keys by blast
    then have "x \<le> next_client s"
      using hub_inv_key(5)[OF assms, of x] by (metis less_imp_le order_refl)
    then show ?thesis by simp
  qed
  show "\<not> closed (send ?s' x)" if "next_client ?s' \<le> x" for x
    using that hub_inv_fresh[OF assms, of x] by auto
  show "closes x (trace ?s') = (if closed (send ?s' x) then 1 else 0)" for x
    using hub_inv_closes[OF assms, of x] hub_inv_fresh[OF assms, of "next_client s"]
    by (auto simp: make_chan_def)
  show "1 \<le> sendcap ?s'"
    using hub_inv_sendcap[OF assms] by simp
qed

lemma writePump_recv_fields:
  "clients (writePump_recv c s) = clients s"
  "next_client (writePump_recv c s) = next_client s"
  "sendcap (writePump_recv c s) = sendcap s"
  "closed (send (writePump_recv c s) x) = closed (send s x)"
  "cap (send (writePump_recv c s) x) = cap (send s x)"
  "length (buf (send (writePump_recv c s) x)) \<le> length (buf (send s x))"
  "closes x (trace (writePump_recv c s)) = closes x (trace s)"
  by (auto simp: writePump_recv_def recv_def split: list.splits)

lemma writePump_recv_inv:
  assumes "hub_inv s"
  shows "hub_inv (writePump_recv c s)" (is "hub_inv ?s'")
proof (rule hub_invI)
  note f = writePump_recv_fields[where c=c and s=s]
  show "distinct (map fst (clients ?s'))"
    using hub_inv_distinct[OF assms] by (simp add: f)
  show "live ?s' x" if "x \<in> set (map fst (clients ?s'))" for x
    using that hub_inv_key(1)[OF assms, of x] by (simp add: f live_def)
  show "\<not> closed (send ?s' x)" if "x \<in> set (map fst (clients ?s'))" for x
    using that hub_inv_key(2)[OF assms, of x] by (simp add: f)
  show "1 \<le> cap (send ?s' x)" if "x \<in> set (map fst (clients ?s'))" for x
    using that hub_inv_key(3)[OF assms, of x] by (simp add: f)
  show "length (buf (send ?s' x)) \<le> cap (send ?s' x)" if "x \<in> set (map fst (clients ?s'))" for x
    using that hub_inv_key(4)[OF assms, of x] f(6)[where x=x] by (simp add: f(1,5))
  show "x < next_client ?s'" if "x \<in> set (map fst (clients ?s'))" for x
    using that hub_inv_key(5)[OF assms, of x] by (simp add: f)
  show "\<not> closed (send ?s' x)" if "next_client ?s' \<le> x" for x
    using that hub_inv_fresh[OF assms, of x] by (simp add: f)
  show "closes x (trace ?s') = (if closed (send ?s' x) then 1 else 0)" for x
    using hub_inv_closes[OF assms, of x] by (simp add: f)
  show "1 \<le> sendcap ?s'"
    using hub_inv_sendcap[OF assms] by (simp add: f)
qed

lemma writePump_tick_inv:
  assumes "hub_inv s"
  shows "hub_inv (writePump_tick c s)"
  using assms unfolding hub_inv_def writePump_tick_def live_def by simp

lemma NewHub_inv: "hub_inv (NewHub opts)"
  using withDefaults_SendCap_pos[of "case opts of None \<Rightarrow> zero_Options | Some p \<Rightarrow> p"]
  by (simp add: hub_inv_def NewHub_def make_chan_def NewHub_opts_def Let_def)

lemma step_inv:
  assumes "hub_inv s"
  shows "\<exists>s'. step e s = Inr s' \<and> hub_inv s'"
proof (cases e)
  case Connect
  then show ?thesis using ServeWs_inv[OF assms] by (simp add: ServeWs_eq)
next
  case (Reader c r)
  show ?thesis
  proof (cases r)
    case (ReadOk t m)
    then show ?thesis
      using Reader fanout_inv[OF assms] Broadcast_eq[OF assms]
      by (simp add: readPump_round_def)
  next
    case ReadErr
    show ?thesis
    proof (cases "live s c")
      case True
      then show ?thesis
        using Reader ReadErr Unregister_live[OF assms True] Unregister_live_inv[OF assms True]
        by (simp add: readPump_round_def)
    next
      case False
      then show ?thesis
        using Reader ReadErr assms by (simp add: readPump_round_def)
    qed
  qed
next
  case (Api b)
  then show ?thesis using fanout_inv[OF assms] Broadcast_eq[OF assms] by simp
next
  case (WriterRecv c)
  then show ?thesis using writePump_recv_inv[OF assms] by simp
next
  case (WriterTick c)
  then show ?thesis using writePump_tick_inv[OF assms] by simp
qed

lemma run_inv:
  "hub_inv s \<Longrightarrow> \<exists>s'. run evs s = Inr s' \<and> hub_inv s'"
proof (induction evs arbitrary: s)
  case Nil
  then show ?case by simp
next
  case (Cons e evs)
  from step_inv[OF Cons.prems, of e] obtain s1 where s1: "step e s = Inr s1" "hub_inv s1"
    by blast
  from Cons.IH[OF s1(2)] s1(1) show ?case by simp
qed

lemma run_append:
  "run (evs @ evs') s = (case run evs s of Inl p \<Rightarrow> Inl p | Inr s' \<Rightarrow> run evs' s')"
  by (induction evs arbitrary: s) (auto split: sum.splits)

subsection \<open>Defaults\<close>

text \<open>
  Claim C5. A configuration field left unset (Go's zero value: \<open>0\<close> for the two sizes,
  \<^verbatim>\<open>nil\<close> for the origin predicate, or no configuration at all) is replaced by the
  documented default when the hub is built: queue capacity 128 (also the capacity that
  \<^verbatim>\<open>ServeWs\<close> gives to the queue of a new connection), maximum frame size 8192 bytes, and
  an origin predicate that accepts every request.
\<close>

theorem NewHub_defaults:
  "(opts = None \<or> (\<exists>p. opts = Some p \<and> SendCap p = 0)
      \<longrightarrow> SendCap (NewHub_opts opts) = 128 \<and> sendcap (NewHub opts) = 128)
   \<and> (opts = None \<or> (\<exists>p. opts = Some p \<and> MaxMessageSize p = 0)
      \<longrightarrow> MaxMessageSize (NewHub_opts opts) = 8192)
   \<and> (opts = None \<or> (\<exists>p. opts = Some p \<and> CheckOrigin p = None)
      \<longrightarrow> (\<exists>f. CheckOrigin (NewHub_opts opts) = Some f \<and> (\<forall>r. f r)))"
  by (auto simp: NewHub_def NewHub_opts_def withDefaults_def zero_Options_def Let_def)

theorem NewHub_defaults_witness:
  "SendCap (NewHub_opts (None :: unit Options option)) = 128
   \<and> sendcap (NewHub (None :: unit Options option)) = 128
   \<and> MaxMessageSize (NewHub_opts (Some \<lparr>SendCap = 256, MaxMessageSize = 0,
        EnableCompression = True, CheckOrigin = (None :: (unit \<Rightarrow> bool) option)\<rparr>)) = 8192
   \<and> (\<exists>f. CheckOrigin (NewHub_opts (Some \<lparr>SendCap = 256, MaxMessageSize = 8192,
        EnableCompression = True, CheckOrigin = (None :: (unit \<Rightarrow> bool) option)\<rparr>)) = Some f
        \<and> (\<forall>r. f r))"
  using NewHub_defaults [of "None :: unit Options option"]
    NewHub_defaults [of "Some \<lparr>SendCap = 256, MaxMessageSize = 0,
        EnableCompression = True, CheckOrigin = (None :: (unit \<Rightarrow> bool) option)\<rparr>"]
    NewHub_defaults [of "Some \<lparr>SendCap = 256, MaxMessageSize = 8192,
        EnableCompression = True, CheckOrigin = (None :: (unit \<Rightarrow> bool) option)\<rparr>"]
  by simp

subsection \<open>Heartbeat period\<close>

text \<open>
  Claim C7. The write loop's probe interval is 90 percent of the read loop's heartbeat
  timeout: ten probe intervals are exactly nine timeouts. With the timeout of 60 seconds
  that the source configures, the ticker fires every 54 seconds, and every value involved
  fits a signed 64-bit duration.
\<close>

theorem pingPeriod_is_90_percent:
  "10 * writePump_ticker_period = 9 * pongWait
   \<and> readPump_deadline 0 = 60 * Second
   \<and> writePump_ticker_period = 54 * Second
   \<and> 0 < pongWait * 9 \<and> pongWait * 9 < 2 ^ 63"
  by (simp add: writePump_ticker_period_def pingPeriod_def pongWait_def Second_def
      readPump_deadline_def)

subsection \<open>The backpressure policy of a broadcast round\<close>

text \<open>
  Claim C1. In a round for a broadcast payload, every connection \<open>c\<close> in the live set
  (whose queue is open, as the queue of a live connection is) is treated by the
  three-step policy. If the queue has room the payload is enqueued. If the queue is
  full, one oldest payload is taken off (nothing is taken when nothing is there:
  \<open>drop 1 [] = []\<close>) and the enqueue is retried once; when the retry succeeds the
  payload is last in the queue. If the retry fails too, the queue is closed (one more
  close in the log) and \<open>c\<close> is no longer in the live set when the round ends; the
  payload is not enqueued. In the first two cases \<open>c\<close> stays in the live set with its
  queue open and the payload is enqueued exactly once.
\<close>

theorem Broadcast_three_step_policy:
  assumes "distinct (map fst (clients s))"
    and "\<forall>c \<in> set (map fst (clients s)). \<not> closed (send s c)"
  shows "\<exists>s'. Hub_Run_step (Broadcast msg) s = Inr s' \<and>
    (\<forall>c \<in> set (map fst (clients s)).
       (length (buf (send s c)) < cap (send s c) \<longrightarrow>
          buf (send s' c) = buf (send s c) @ [msg]
          \<and> enqs c (trace s') = enqs c (trace s) @ [msg]
          \<and> \<not> closed (send s' c) \<and> closes c (trace s') = closes c (trace s)
          \<and> c \<in> set (map fst (clients s')))
     \<and> (\<not> length (buf (send s c)) < cap (send s c)
          \<and> length (drop 1 (buf (send s c))) < cap (send s c) \<longrightarrow>
          buf (send s' c) = drop 1 (buf (send s c)) @ [msg]
          \<and> enqs c (trace s') = enqs c (trace s) @ [msg]
          \<and> \<not> closed (send s' c) \<and> closes c (trace s') = closes c (trace s)
          \<and> c \<in> set (map fst (clients s')))
     \<and> (\<not> length (buf (send s c)) < cap (send s c)
          \<and> \<not> length (drop 1 (buf (send s c))) < cap (send s c) \<longrightarrow>
          buf (send s' c) = drop 1 (buf (send s c))
          \<and> enqs c (trace s') = enqs c (trace s)
          \<and> closed (send s' c) \<and> closes c (trace s') = closes c (trace s) + 1
          \<and> c \<notin> set (map fst (clients s'))))"
proof -
  let ?cs = "map fst (clients s)"
  let ?s' = "fanout msg ?cs s"
  have run: "Hub_Run_step (Broadcast msg) s = Inr ?s'"
    using assms by (simp add: broadcast_all_eq)
  have d1: "buf (drop_oldest ch) = drop 1 (buf ch)" for ch
    by (simp add: drop_oldest_def drop_Suc split: list.splits)
  have d2: "closed (drop_oldest ch) = closed ch" for ch
    by (simp add: drop_oldest_def split: list.splits)
  have keys: "set (map fst (clients ?s')) = {c \<in> set ?cs. \<not> evicts (send s c)}"
    by (auto simp: fanout_def image_iff) 
  have "\<forall>c \<in> set ?cs.
       (length (buf (send s c)) < cap (send s c) \<longrightarrow>
          buf (send ?s' c) = buf (send s c) @ [msg]
          \<and> enqs c (trace ?s') = enqs c (trace s) @ [msg]
          \<and> \<not> closed (send ?s' c) \<and> closes c (trace ?s') = closes c (trace s)
          \<and> c \<in> set (map fst (clients ?s')))
     \<and> (\<not> length (buf (send s c)) < cap (send s c)
          \<and> length (drop 1 (buf (send s c))) < cap (send s c) \<longrightarrow>
          buf (send ?s' c) = drop 1 (buf (send s c)) @ [msg]
          \<and> enqs c (trace ?s') = enqs c (trace s) @ [msg]
          \<and> \<not> closed (send ?s' c) \<and> closes c (trace ?s') = closes c (trace s)
          \<and> c \<in> set (map fst (clients ?s')))
     \<and> (\<not> length (buf (send s c)) < cap (send s c)
          \<and> \<not> length (drop 1 (buf (send s c))) < cap (send s c) \<longrightarrow>
          buf (send ?s' c) = drop 1 (buf (send s c))
          \<and> enqs c (trace ?s') = enqs c (trace s)
          \<and> closed (send ?s' c) \<and> closes c (trace ?s') = closes c (trace s) + 1
          \<and> c \<notin> set (map fst (clients ?s')))"
  proof
    fix c assume c: "c \<in> set ?cs"
    have snd: "send ?s' c = offer msg (send s c)"
      using c by (simp add: fanout_def)
    have tr: "trace ?s' = trace s @ concat (map (\<lambda>c. offer_log msg c (send s c)) ?cs)"
      by (simp add: fanout_def)
    have e: "enqs c (trace ?s') = enqs c (trace s) @ (if \<not> evicts (send s c) then [msg] else [])"
      using c enqs_fan[OF assms(1), of c msg "send s"] unfolding tr by simp
    have k: "closes c (trace ?s') = closes c (trace s) + (if evicts (send s c) then 1 else 0)"
      using c closes_fan[OF assms(1), of c msg "send s"] unfolding tr by simp
    have o: "\<not> closed (send s c)" using assms(2) c by blast
    have m: "c \<in> set (map fst (clients ?s')) \<longleftrightarrow> \<not> evicts (send s c)"
      unfolding keys using c by simp
    show "(length (buf (send s c)) < cap (send s c) \<longrightarrow>
          buf (send ?s' c) = buf (send s c) @ [msg]
          \<and> enqs c (trace ?s') = enqs c (trace s) @ [msg]
          \<and> \<not> closed (send ?s' c) \<and> closes c (trace ?s') = closes c (trace s)
          \<and> c \<in> set (map fst (clients ?s')))
     \<and> (\<not> length (buf (send s c)) < cap (send s c)
          \<and> length (drop 1 (buf (send s c))) < cap (send s c) \<longrightarrow>
          buf (send ?s' c) = drop 1 (buf (send s c)) @ [msg]
          \<and> enqs c (trace ?s') = enqs c (trace s) @ [msg]
          \<and> \<not> closed (send ?s' c) \<and> closes c (trace ?s') = closes c (trace s)
          \<and> c \<in> set (map fst (clients ?s')))
     \<and> (\<not> length (buf (send s c)) < cap (send s c)
          \<and> \<not> length (drop 1 (buf (send s c))) < cap (send s c) \<longrightarrow>
          buf (send ?s' c) = drop 1 (buf (send s c))
          \<and> enqs c (trace ?s') = enqs c (trace s)
          \<and> closed (send ?s' c) \<and> closes c (trace ?s') = closes c (trace s) + 1
          \<and> c \<notin> set (map fst (clients ?s')))"
      unfolding snd e k m using o
      by (simp add: offer_def evicts_def d1 d2)
  qed
  with run show ?thesis by blast
qed


text \<open>
  One round on three connections: one with room, one with a full queue of capacity two,
  and one whose queue has capacity zero, so that all three cases occur.
\<close>

theorem Broadcast_three_step_policy_witness:
  "distinct (map fst [(0::nat, True), (1, True), (2, True)])
   \<and> \<not> closed (((\<lambda>c. make_chan 0)
              (0 := \<lparr>buf = [], cap = 2, closed = False\<rparr>,
               1 := \<lparr>buf = [''a'', ''b''], cap = 2, closed = False\<rparr>)) 0)
   \<and> \<not> closed (((\<lambda>c. make_chan 0)
              (0 := \<lparr>buf = [], cap = 2, closed = False\<rparr>,
               1 := \<lparr>buf = [''a'', ''b''], cap = 2, closed = False\<rparr>)) 1)
   \<and> \<not> closed (((\<lambda>c. make_chan 0)
              (0 := \<lparr>buf = [], cap = 2, closed = False\<rparr>,
               1 := \<lparr>buf = [''a'', ''b''], cap = 2, closed = False\<rparr>)) 2)
   \<and> (\<exists>s'. Hub_Run_step (Broadcast ''m'')
          \<lparr>clients = [(0, True), (1, True), (2, True)],
           send = (\<lambda>c. make_chan 0)
              (0 := \<lparr>buf = [], cap = 2, closed = False\<rparr>,
               1 := \<lparr>buf = [''a'', ''b''], cap = 2, closed = False\<rparr>),
           sendcap = 2, next_client = 3, trace = []\<rparr> = Inr s'
        \<and> buf (send s' 0) = [''m''] \<and> 0 \<in> set (map fst (clients s'))
        \<and> buf (send s' 1) = [''b'', ''m''] \<and> 1 \<in> set (map fst (clients s'))
        \<and> closed (send s' 2) \<and> closes 2 (trace s') = 1
        \<and> 2 \<notin> set (map fst (clients s')))"
  using Broadcast_three_step_policy [of
          "\<lparr>clients = [(0, True), (1, True), (2, True)],
           send = (\<lambda>c. make_chan 0)
              (0 := \<lparr>buf = [], cap = 2, closed = False\<rparr>,
               1 := \<lparr>buf = [''a'', ''b''], cap = 2, closed = False\<rparr>),
           sendcap = 2, next_client = 3, trace = []\<rparr>" "''m''"]
  by (simp add: make_chan_def) blast


subsection \<open>Runs from a new hub\<close>

lemmas run_eval =
  NewHub_def NewHub_opts_def withDefaults_def zero_Options_def ServeWs_def make_chan_def
  live_def readPump_round_def close_chan_def broadcast_one_def try_send_def recv_def
  writePump_recv_def writePump_tick_def Let_def

lemma run_NewHub: "\<exists>s. run evs (NewHub opts) = Inr s \<and> hub_inv s"
  by (rule run_inv[OF NewHub_inv])

lemma not_live_delete: "\<not> live (s\<lparr>clients := AList.delete c (clients s)\<rparr>) c"
  by (simp add: live_def delete_conv')

subsection \<open>Unregister\<close>

text \<open>
  Claim C4. In any state \<open>s\<close> that a sequence of events reaches from a new hub (no
  such sequence panics): the queue of a connection \<open>c\<close> has been closed at most once;
  if \<open>c\<close> is in the live set, the round for \<open>Unregister c\<close> removes it and closes its
  queue, which was not closed before and is now closed exactly once, and a second
  \<open>Unregister c\<close> right after changes nothing; if \<open>c\<close> is not in the live set (never
  registered, already unregistered, or evicted) the round for \<open>Unregister c\<close> changes
  nothing, and in particular neither panics nor closes the queue again.
\<close>

theorem Unregister_closes_once:
  "\<exists>s. run evs (NewHub opts) = Inr s
     \<and> closes c (trace s) \<le> 1
     \<and> (live s c \<longrightarrow>
          (\<exists>s'. Hub_Run_step (Unregister c) s = Inr s'
             \<and> \<not> live s' c \<and> closed (send s' c)
             \<and> closes c (trace s) = 0 \<and> closes c (trace s') = 1
             \<and> Hub_Run_step (Unregister c) s' = Inr s'))
     \<and> (\<not> live s c \<longrightarrow> Hub_Run_step (Unregister c) s = Inr s)"
proof -
  from run_NewHub[of evs opts] obtain s where s: "run evs (NewHub opts) = Inr s" "hub_inv s"
    by blast
  have le: "closes c (trace s) \<le> 1"
    using hub_inv_closes[OF s(2), of c] by simp
  have lv: "\<exists>s'. Hub_Run_step (Unregister c) s = Inr s'
             \<and> \<not> live s' c \<and> closed (send s' c)
             \<and> closes c (trace s) = 0 \<and> closes c (trace s') = 1
             \<and> Hub_Run_step (Unregister c) s' = Inr s'" if "live s c"
  proof -
    let ?s' = "s\<lparr>clients := AList.delete c (clients s),
            send := (send s)(c := (send s c)\<lparr>closed := True\<rparr>),
            trace := trace s @ [Close c]\<rparr>"
    have 1: "Hub_Run_step (Unregister c) s = Inr ?s'"
      by (rule Unregister_live[OF s(2) that])
    have 2: "\<not> live ?s' c"
      by (simp add: live_def delete_conv')
    have "\<not> closed (send s c)"
      using hub_inv_key(2)[OF s(2)] that live_keys by blast
    then have 3: "closes c (trace s) = 0"
      using hub_inv_closes[OF s(2), of c] by simp
    then have 4: "closes c (trace ?s') = 1" by simp
    have 5: "Hub_Run_step (Unregister c) ?s' = Inr ?s'"
      using 2 by (rule Unregister_absent)
    show ?thesis using 1 2 3 4 5 by (intro exI[of _ ?s']) simp
  qed
  show ?thesis
    using s(1) le lv Unregister_absent[of s c] by blast
qed

text \<open>
  A connection is registered, receives a broadcast, and is unregistered twice; a
  connection that was never registered is unregistered as well.
\<close>

theorem Unregister_closes_once_witness:
  "live (projr (run [Connect, Api ''x''] (NewHub (None :: unit Options option)))) 0
   \<and> closes 0 (trace (projr (run [Connect, Api ''x'', Reader 0 ReadErr]
         (NewHub (None :: unit Options option))))) = 1
   \<and> \<not> live (projr (run [Connect, Api ''x'', Reader 0 ReadErr]
         (NewHub (None :: unit Options option)))) 0
   \<and> (\<exists>s. run [Connect, Api ''x'', Reader 0 ReadErr, Reader 0 ReadErr, Reader 5 ReadErr]
            (NewHub (None :: unit Options option)) = Inr s
          \<and> closes 0 (trace s) \<le> 1 \<and> closes 5 (trace s) \<le> 1
          \<and> Hub_Run_step (Unregister 0) s = Inr s)"
  using Unregister_closes_once [of "[Connect, Api ''x'']" "None :: unit Options option" 0]
    Unregister_closes_once [of "[Connect, Api ''x'', Reader 0 ReadErr, Reader 0 ReadErr,
       Reader 5 ReadErr]" "None :: unit Options option" 0]
  by (simp add: run_eval closes_def)


subsection \<open>A connection whose write loop is paused\<close>

lemma fanout_fields:
  "clients (fanout msg cs s) = filter (\<lambda>(k, v). \<not> (k \<in> set cs \<and> evicts (send s k))) (clients s)"
  "send (fanout msg cs s) c = (if c \<in> set cs then offer msg (send s c) else send s c)"
  "trace (fanout msg cs s) = trace s @ concat (map (\<lambda>c. offer_log msg c (send s c)) cs)"
  "sendcap (fanout msg cs s) = sendcap s"
  "next_client (fanout msg cs s) = next_client s"
  by (simp_all add: fanout_def)

lemma Broadcast_live:
  assumes "hub_inv s" "live s c"
  shows "live (fanout msg (map fst (clients s)) s) c"
    "buf (send (fanout msg (map fst (clients s)) s) c)
       = (if length (buf (send s c)) < cap (send s c) then buf (send s c)
          else tl (buf (send s c))) @ [msg]"
    "cap (send (fanout msg (map fst (clients s)) s) c) = cap (send s c)"
    "closed (send (fanout msg (map fst (clients s)) s) c) = closed (send s c)"
proof -
  have k: "c \<in> set (map fst (clients s))" using assms(2) by (rule live_keys)
  show "live (fanout msg (map fst (clients s)) s) c"
    using assms(2) fanout_clients[OF assms(1), of msg] by (simp add: live_def)
  show "buf (send (fanout msg (map fst (clients s)) s) c)
       = (if length (buf (send s c)) < cap (send s c) then buf (send s c)
          else tl (buf (send s c))) @ [msg]"
    using k buf_offer[OF hub_inv_key(3,4)[OF assms(1) k], of msg]
    by (simp add: fanout_fields del: set_map)
  show "cap (send (fanout msg (map fst (clients s)) s) c) = cap (send s c)"
    by (simp add: fanout_fields)
  show "closed (send (fanout msg (map fst (clients s)) s) c) = closed (send s c)"
    using hub_inv_no_evict[OF assms(1) k] by (simp add: fanout_fields offer_closed)
qed

lemma keep_latest_step:
  assumes "length b \<le> n" "1 \<le> n"
  shows "drop (length (((if length b < n then b else tl b) @ [m]) @ ms) - n)
              (((if length b < n then b else tl b) @ [m]) @ ms)
       = drop (length (b @ m # ms) - n) (b @ m # ms)"
proof (cases "length b < n")
  case True
  then show ?thesis by simp
next
  case False
  with assms have len: "length b = n" by simp
  with assms(2) obtain x b' where b: "b = x # b'" by (cases b) auto
  have "length (b @ m # ms) - n = Suc (length ms)" using len by simp
  moreover have "length ((tl b @ [m]) @ ms) - n = length ms" using len b by simp
  ultimately show ?thesis using False b by simp
qed

lemma paused_run:
  assumes "hub_inv s" "live s c"
  shows "\<exists>s'. run (map Api msgs) s = Inr s' \<and> hub_inv s' \<and> live s' c
           \<and> closed (send s' c) = closed (send s c)
           \<and> cap (send s' c) = cap (send s c)
           \<and> buf (send s' c)
               = drop (length (buf (send s c) @ msgs) - cap (send s c)) (buf (send s c) @ msgs)"
  using assms
proof (induction msgs arbitrary: s)
  case Nil
  have "length (buf (send s c)) \<le> cap (send s c)"
    using hub_inv_key(4)[OF Nil(1) live_keys[OF Nil(2)]] .
  then show ?case using Nil by simp
next
  case (Cons m ms)
  let ?s1 = "fanout m (map fst (clients s)) s"
  note k = live_keys[OF Cons.prems(2)]
  note b = Broadcast_live[OF Cons.prems, of m]
  have inv1: "hub_inv ?s1" by (rule fanout_inv[OF Cons.prems(1)])
  from Cons.IH[OF inv1 b(1)] obtain s' where s': "run (map Api ms) ?s1 = Inr s'" "hub_inv s'"
      "live s' c" "closed (send s' c) = closed (send ?s1 c)" "cap (send s' c) = cap (send ?s1 c)"
      "buf (send s' c) = drop (length (buf (send ?s1 c) @ ms) - cap (send ?s1 c))
          (buf (send ?s1 c) @ ms)"
    by blast
  have r: "run (map Api (m # ms)) s = Inr s'"
    using s'(1) Broadcast_eq[OF Cons.prems(1), of m] by simp
  have "buf (send s' c) = drop (length (buf (send s c) @ m # ms) - cap (send s c))
          (buf (send s c) @ m # ms)"
    unfolding s'(6) b(2) b(3)
    by (rule keep_latest_step[OF hub_inv_key(4)[OF Cons.prems(1) k] hub_inv_key(3)[OF Cons.prems(1) k]])
  then show ?case
    using r s'(2,3,4,5) b(3,4) by simp
qed

text \<open>
  Claim C2 as stated fails. With queue capacity \<open>N = 1\<close> and no receive by the write
  loop, three broadcasts (more than \<open>N + 1\<close>) leave the connection in the live set, and
  its queue has not been closed: the hub itself takes the oldest payload off the full
  queue, so its second enqueue finds room.
\<close>

theorem paused_queue_not_evicted_counterexample:
  "\<not> isl (run [Connect, Api ''a'', Api ''b'', Api ''c'']
        (NewHub (Some \<lparr>SendCap = 1, MaxMessageSize = 8192, EnableCompression = False,
           CheckOrigin = (None :: (unit \<Rightarrow> bool) option)\<rparr>)))
   \<and> cap (send (projr (run [Connect, Api ''a'', Api ''b'', Api ''c'']
        (NewHub (Some \<lparr>SendCap = 1, MaxMessageSize = 8192, EnableCompression = False,
           CheckOrigin = (None :: (unit \<Rightarrow> bool) option)\<rparr>)))) 0) = 1
   \<and> live (projr (run [Connect, Api ''a'', Api ''b'', Api ''c'']
        (NewHub (Some \<lparr>SendCap = 1, MaxMessageSize = 8192, EnableCompression = False,
           CheckOrigin = (None :: (unit \<Rightarrow> bool) option)\<rparr>)))) 0
   \<and> closes 0 (trace (projr (run [Connect, Api ''a'', Api ''b'', Api ''c'']
        (NewHub (Some \<lparr>SendCap = 1, MaxMessageSize = 8192, EnableCompression = False,
           CheckOrigin = (None :: (unit \<Rightarrow> bool) option)\<rparr>))))) = 0"
  by (simp add: run_eval closes_def)

text \<open>
  Claim C2, amended. Let \<open>s\<close> be a state reached from a new hub and \<open>c\<close> a connection in
  its live set whose write loop is paused (the events that follow are broadcasts only).
  However many broadcasts are submitted, \<open>c\<close> stays in the live set, its queue (of
  capacity at least one) stays open and has never been closed, and the queue holds the
  most recent payloads, as many as its capacity allows, in submission order.
\<close>

theorem paused_queue_keeps_latest:
  "\<exists>s. run evs (NewHub opts) = Inr s
     \<and> (live s c \<longrightarrow>
          (\<exists>s'. run (map Api msgs) s = Inr s'
             \<and> live s' c \<and> \<not> closed (send s' c) \<and> closes c (trace s') = 0
             \<and> 1 \<le> cap (send s' c) \<and> cap (send s' c) = cap (send s c)
             \<and> buf (send s' c)
                 = drop (length (buf (send s c) @ msgs) - cap (send s c))
                     (buf (send s c) @ msgs)))"
proof -
  from run_NewHub[of evs opts] obtain s where s: "run evs (NewHub opts) = Inr s" "hub_inv s"
    by blast
  have "\<exists>s'. run (map Api msgs) s = Inr s'
             \<and> live s' c \<and> \<not> closed (send s' c) \<and> closes c (trace s') = 0
             \<and> 1 \<le> cap (send s' c) \<and> cap (send s' c) = cap (send s c)
             \<and> buf (send s' c)
                 = drop (length (buf (send s c) @ msgs) - cap (send s c))
                     (buf (send s c) @ msgs)" if lv: "live s c"
  proof -
    from paused_run[OF s(2) lv, of msgs] obtain s' where s':
      "run (map Api msgs) s = Inr s'" "hub_inv s'" "live s' c"
      "cap (send s' c) = cap (send s c)"
      "buf (send s' c) = drop (length (buf (send s c) @ msgs) - cap (send s c))
          (buf (send s c) @ msgs)"
      by blast
    note k = live_keys[OF s'(3)]
    have "\<not> closed (send s' c)" by (rule hub_inv_key(2)[OF s'(2) k])
    moreover from this have "closes c (trace s') = 0"
      using hub_inv_closes[OF s'(2), of c] by simp
    moreover have "1 \<le> cap (send s' c)" by (rule hub_inv_key(3)[OF s'(2) k])
    ultimately show ?thesis using s' by blast
  qed
  with s(1) show ?thesis by blast
qed

text \<open>
  Capacity two, four broadcasts: the last two are queued.
\<close>

theorem paused_queue_keeps_latest_witness:
  "live (projr (run [Connect] (NewHub (Some \<lparr>SendCap = 2, MaxMessageSize = 8192,
        EnableCompression = False, CheckOrigin = (None :: (unit \<Rightarrow> bool) option)\<rparr>)))) 0
   \<and> (\<exists>s'. run (map Api [''a'', ''b'', ''c'', ''d''])
          (projr (run [Connect] (NewHub (Some \<lparr>SendCap = 2, MaxMessageSize = 8192,
             EnableCompression = False, CheckOrigin = (None :: (unit \<Rightarrow> bool) option)\<rparr>))))
          = Inr s'
        \<and> live s' 0 \<and> \<not> closed (send s' 0) \<and> closes 0 (trace s') = 0
        \<and> cap (send s' 0) = 2 \<and> buf (send s' 0) = [''c'', ''d''])"
  using paused_queue_keeps_latest [of "[Connect]"
      "Some \<lparr>SendCap = 2, MaxMessageSize = 8192, EnableCompression = False,
         CheckOrigin = (None :: (unit \<Rightarrow> bool) option)\<rparr>" 0 "[''a'', ''b'', ''c'', ''d'']"]
  by (simp add: run_eval closes_def)

subsection \<open>Order of enqueues and of delivery\<close>

lemma broadcasts_Cons: "broadcasts (e # es) = broadcasts [e] @ broadcasts es"
  by (cases "(e # es)" rule: broadcasts.cases) auto

lemma broadcasts_append [simp]: "broadcasts (es @ es') = broadcasts es @ broadcasts es'"
  by (induction es rule: broadcasts.induct) auto

lemma Broadcast_enqs:
  assumes "hub_inv s"
  shows "enqs c (trace (fanout m (map fst (clients s)) s))
           = enqs c (trace s) @ (if live s c then [m] else [])"
  using enqs_fan[OF hub_inv_distinct[OF assms], of c m "send s"]
    hub_inv_no_evict[OF assms, of c] hub_inv_live[OF assms, of c]
  by (simp add: fanout_fields)

lemma Broadcast_not_live:
  assumes "hub_inv s" "\<not> live s c"
  shows "send (fanout m (map fst (clients s)) s) c = send s c"
  using assms hub_inv_live[OF assms(1), of c] by (simp add: fanout_fields)

lemma writePump_recv_logs:
  "enqs x (trace (writePump_recv c s)) = enqs x (trace s)"
  "live (writePump_recv c s) x = live s x"
  by (auto simp: writePump_recv_def recv_def live_def split: list.splits)

lemma step_enqs:
  assumes "hub_inv s" "step e s = Inr s'"
  shows "enqs c (trace s') = enqs c (trace s) @ (if live s c then broadcasts [e] else [])"
proof (cases e)
  case Connect
  then show ?thesis using assms(2) by (auto simp: ServeWs_eq)
next
  case (Reader c0 r)
  show ?thesis
  proof (cases r)
    case (ReadOk t m)
    then show ?thesis
      using Reader assms(2) Broadcast_eq[OF assms(1), of m] Broadcast_enqs[OF assms(1), of c m]
      by (auto simp: readPump_round_def)
  next
    case ReadErr
    then show ?thesis
      using Reader assms(2) Unregister_live[OF assms(1), of c0]
      by (cases "live s c0") (auto simp: readPump_round_def)
  qed
next
  case (Api b)
  then show ?thesis
    using assms(2) Broadcast_eq[OF assms(1), of b] Broadcast_enqs[OF assms(1), of c b]
    by auto
next
  case (WriterRecv c0)
  then show ?thesis using assms(2) by (auto simp: writePump_recv_logs)
next
  case (WriterTick c0)
  then show ?thesis using assms(2) by (auto simp: writePump_tick_def)
qed

lemma live_update: "live (s\<lparr>clients := AList.update k True (clients s)\<rparr>) c = (c = k \<or> live s c)"
  by (simp add: live_def update_conv')

lemma live_delete: "live (s\<lparr>clients := AList.delete k (clients s)\<rparr>) c = (c \<noteq> k \<and> live s c)"
  by (simp add: live_def delete_conv')

lemma step_live:
  assumes "hub_inv s" "step e s = Inr s'" "live s c" "e \<noteq> Reader c ReadErr"
  shows "live s' c"
proof (cases e)
  case Connect
  then show ?thesis using assms(2,3) by (auto simp: ServeWs_eq live_def update_conv')
next
  case (Reader c0 r)
  show ?thesis
  proof (cases r)
    case (ReadOk t m)
    then show ?thesis
      using Reader assms(2) Broadcast_eq[OF assms(1), of m] Broadcast_live(1)[OF assms(1,3), of m]
      by (auto simp: readPump_round_def)
  next
    case ReadErr
    then have "c0 \<noteq> c" using Reader assms(4) by simp
    then show ?thesis
      using Reader ReadErr assms(2,3) Unregister_live[OF assms(1), of c0]
      by (cases "live s c0") (auto simp: readPump_round_def live_def delete_conv')
  qed
next
  case (Api b)
  then show ?thesis
    using assms(2) Broadcast_eq[OF assms(1), of b] Broadcast_live(1)[OF assms(1,3), of b]
    by auto
next
  case (WriterRecv c0)
  then show ?thesis using assms(2,3) by (auto simp: writePump_recv_logs)
next
  case (WriterTick c0)
  then show ?thesis using assms(2,3) by (auto simp: writePump_tick_def live_def)
qed

lemma run_enqs_subseq:
  assumes "hub_inv s" "run evs s = Inr s'"
  shows "\<exists>xs. enqs c (trace s') = enqs c (trace s) @ xs \<and> subseq xs (broadcasts evs)"
  using assms
proof (induction evs arbitrary: s)
  case Nil
  then show ?case by simp
next
  case (Cons e evs)
  from step_inv[OF Cons.prems(1), of e] obtain s1 where s1: "step e s = Inr s1" "hub_inv s1"
    by blast
  have r: "run evs s1 = Inr s'" using Cons.prems(2) s1(1) by simp
  from Cons.IH[OF s1(2) r] obtain xs where xs: "enqs c (trace s') = enqs c (trace s1) @ xs"
      "subseq xs (broadcasts evs)" by blast
  let ?h = "if live s c then broadcasts [e] else []"
  have "enqs c (trace s') = enqs c (trace s) @ (?h @ xs)"
    using xs(1) step_enqs[OF Cons.prems(1) s1(1), of c] by simp
  moreover have "subseq (?h @ xs) (broadcasts [e] @ broadcasts evs)"
    using xs(2) by (auto intro: list_emb_append_mono subseq_drop_many)
  ultimately show ?case
    using broadcasts_Cons[of e evs] by metis
qed

lemma run_enqs_live:
  assumes "hub_inv s" "run evs s = Inr s'" "live s c" "Reader c ReadErr \<notin> set evs"
  shows "live s' c \<and> enqs c (trace s') = enqs c (trace s) @ broadcasts evs"
  using assms
proof (induction evs arbitrary: s)
  case Nil
  then show ?case by simp
next
  case (Cons e evs)
  from step_inv[OF Cons.prems(1), of e] obtain s1 where s1: "step e s = Inr s1" "hub_inv s1"
    by blast
  have r: "run evs s1 = Inr s'" using Cons.prems(2) s1(1) by simp
  have ne: "e \<noteq> Reader c ReadErr" "Reader c ReadErr \<notin> set evs"
    using Cons.prems(4) by auto
  have l1: "live s1 c" by (rule step_live[OF Cons.prems(1) s1(1) Cons.prems(3) ne(1)])
  from Cons.IH[OF s1(2) r l1 ne(2)]
  have "live s' c" "enqs c (trace s') = enqs c (trace s1) @ broadcasts evs" by auto
  then show ?case
    using step_enqs[OF Cons.prems(1) s1(1), of c] Cons.prems(3) broadcasts_Cons[of e evs]
    by simp
qed


lemma subseq_prefix_part: "subseq (d @ b) e \<Longrightarrow> subseq d e"
  using list_emb_appendD by fastforce

lemma subseq_after_offer:
  assumes "subseq (d @ b) e"
  shows "subseq (d @ (if P then b else tl b) @ [m]) (e @ [m])"
proof -
  have "subseq (tl b) b" by (cases b) auto
  then have "subseq (d @ tl b) (d @ b)" by (simp add: subseq_append')
  then have "subseq (d @ tl b) e" using assms subseq_order.trans by blast
  then have "subseq ((d @ (if P then b else tl b)) @ [m]) (e @ [m])"
    using assms by (intro list_emb_append_mono) auto
  then show ?thesis by simp
qed

lemma fanout_delivered: "delivered c (trace (fanout m cs s)) = delivered c (trace s)"
  by (simp add: fanout_fields)

lemma fanout_wrote: "wrote c (trace (fanout m cs s)) = wrote c (trace s)"
  by (simp add: fanout_fields)

lemma Broadcast_order:
  assumes "hub_inv s"
    and "subseq (delivered c (trace s) @ buf (send s c)) (enqs c (trace s))"
  shows "subseq (delivered c (trace (fanout m (map fst (clients s)) s))
                   @ buf (send (fanout m (map fst (clients s)) s) c))
                (enqs c (trace (fanout m (map fst (clients s)) s)))"
proof (cases "live s c")
  case True
  show ?thesis
    unfolding Broadcast_enqs[OF assms(1)] Broadcast_live(2)[OF assms(1) True] fanout_delivered
    using True subseq_after_offer[OF assms(2)] by simp
next
  case False
  show ?thesis
    unfolding Broadcast_enqs[OF assms(1)] Broadcast_not_live[OF assms(1) False] fanout_delivered
    using False assms(2) by simp
qed

lemma writePump_recv_order:
  "delivered x (trace (writePump_recv c s)) @ buf (send (writePump_recv c s) x)
     = delivered x (trace s) @ buf (send s x)"
  by (auto simp: writePump_recv_def recv_def split: list.splits)

lemma step_order:
  assumes "hub_inv s" "step e s = Inr s'"
    and "subseq (delivered c (trace s) @ buf (send s c)) (enqs c (trace s))"
  shows "subseq (delivered c (trace s') @ buf (send s' c)) (enqs c (trace s'))"
proof (cases e)
  case Connect
  then show ?thesis
    using assms(2,3) subseq_prefix_part[OF assms(3)]
    by (auto simp: ServeWs_eq make_chan_def)
next
  case (Reader c0 r)
  show ?thesis
  proof (cases r)
    case (ReadOk t m)
    then show ?thesis
      using Reader assms(2) Broadcast_eq[OF assms(1), of m] Broadcast_order[OF assms(1,3), of m]
      by (auto simp: readPump_round_def)
  next
    case ReadErr
    then show ?thesis
      using Reader assms(2,3) Unregister_live[OF assms(1), of c0]
      by (cases "live s c0") (auto simp: readPump_round_def)
  qed
next
  case (Api b)
  then show ?thesis
    using assms(2) Broadcast_eq[OF assms(1), of b] Broadcast_order[OF assms(1,3), of b]
    by auto
next
  case (WriterRecv c0)
  then show ?thesis
    using assms(2,3) by (auto simp: writePump_recv_order writePump_recv_logs)
next
  case (WriterTick c0)
  then show ?thesis using assms(2,3) by (auto simp: writePump_tick_def)
qed

lemma run_order:
  assumes "hub_inv s" "run evs s = Inr s'"
    and "subseq (delivered c (trace s) @ buf (send s c)) (enqs c (trace s))"
  shows "subseq (delivered c (trace s') @ buf (send s' c)) (enqs c (trace s'))"
  using assms
proof (induction evs arbitrary: s)
  case Nil
  then show ?case by simp
next
  case (Cons e evs)
  from step_inv[OF Cons.prems(1), of e] obtain s1 where s1: "step e s = Inr s1" "hub_inv s1"
    by blast
  have r: "run evs s1 = Inr s'" using Cons.prems(2) s1(1) by simp
  show ?case
    by (rule Cons.IH[OF s1(2) r step_order[OF Cons.prems(1) s1(1) Cons.prems(3)]])
qed

lemma NewHub_logs:
  "trace (NewHub opts) = []" "buf (send (NewHub opts) c) = []" "clients (NewHub opts) = []"
  by (simp_all add: NewHub_def make_chan_def)

text \<open>
  Claim C3. Take any run from a new hub, cut in two parts \<open>evs0\<close> and \<open>evs\<close>, and any
  connection \<open>c\<close>. The payloads enqueued onto the queue of \<open>c\<close> are, in order, a
  subsequence of the broadcasts in the order of their submission. If \<open>c\<close> is in the live
  set after \<open>evs0\<close> and is not unregistered during \<open>evs\<close>, it is still live afterwards and
  every broadcast of \<open>evs\<close> has been enqueued onto its queue, in submission order: of two
  broadcasts the earlier one is enqueued first. What the write loop of \<open>c\<close> has received,
  followed by what is still queued, is a subsequence of what was enqueued: delivery keeps
  the order of submission, and the only entries missing are those the hub took off a
  full queue.
\<close>

theorem broadcast_order_preserved:
  "\<exists>s s'. run evs0 (NewHub opts) = Inr s \<and> run evs s = Inr s'
     \<and> subseq (enqs c (trace s')) (broadcasts (evs0 @ evs))
     \<and> (live s c \<and> Reader c ReadErr \<notin> set evs \<longrightarrow>
          live s' c \<and> enqs c (trace s') = enqs c (trace s) @ broadcasts evs)
     \<and> subseq (delivered c (trace s') @ buf (send s' c)) (enqs c (trace s'))"
proof -
  from run_NewHub[of evs0 opts] obtain s where s: "run evs0 (NewHub opts) = Inr s" "hub_inv s"
    by blast
  from run_inv[OF s(2), of evs] obtain s' where s': "run evs s = Inr s'" "hub_inv s'"
    by blast
  have all: "run (evs0 @ evs) (NewHub opts) = Inr s'"
    using s(1) s'(1) by (simp add: run_append)
  have 1: "subseq (enqs c (trace s')) (broadcasts (evs0 @ evs))"
    using run_enqs_subseq[OF NewHub_inv all, of c] by (auto simp: NewHub_logs)
  have 2: "live s' c \<and> enqs c (trace s') = enqs c (trace s) @ broadcasts evs"
    if "live s c" "Reader c ReadErr \<notin> set evs"
    using run_enqs_live[OF s(2) s'(1) that] .
  have 3: "subseq (delivered c (trace s') @ buf (send s' c)) (enqs c (trace s'))"
    by (rule run_order[OF NewHub_inv all]) (simp add: NewHub_logs)
  show ?thesis using s(1) s'(1) 1 2 3 by blast
qed

text \<open>
  Two connections with queues of capacity two. Connection 1 never reads and stays:
  it is offered all four broadcasts in order and keeps the last two. Connection 0 reads
  once and is unregistered before the fourth broadcast.
\<close>

theorem broadcast_order_preserved_witness:
  "live (projr (run [Connect, Connect] (NewHub (Some \<lparr>SendCap = 2, MaxMessageSize = 8192,
        EnableCompression = False, CheckOrigin = (None :: (unit \<Rightarrow> bool) option)\<rparr>)))) 1
   \<and> Reader 1 ReadErr \<notin> set [Api ''b1'', Reader 0 (ReadOk BinaryMessage ''b2''),
        WriterRecv 0, Api ''b3'', Reader 0 ReadErr, Api ''b4'']
   \<and> (\<exists>s'. run [Api ''b1'', Reader 0 (ReadOk BinaryMessage ''b2''),
               WriterRecv 0, Api ''b3'', Reader 0 ReadErr, Api ''b4'']
          (projr (run [Connect, Connect] (NewHub (Some \<lparr>SendCap = 2, MaxMessageSize = 8192,
             EnableCompression = False, CheckOrigin = (None :: (unit \<Rightarrow> bool) option)\<rparr>))))
          = Inr s'
        \<and> live s' 1
        \<and> enqs 1 (trace s') = [''b1'', ''b2'', ''b3'', ''b4'']
        \<and> delivered 1 (trace s') = [] \<and> buf (send s' 1) = [''b3'', ''b4'']
        \<and> enqs 0 (trace s') = [''b1'', ''b2'', ''b3'']
        \<and> delivered 0 (trace s') = [''b1''] \<and> buf (send s' 0) = [''b2'', ''b3''])"
  using broadcast_order_preserved [of "[Connect, Connect]"
      "Some \<lparr>SendCap = 2, MaxMessageSize = 8192, EnableCompression = False,
         CheckOrigin = (None :: (unit \<Rightarrow> bool) option)\<rparr>"
      "[Api ''b1'', Reader 0 (ReadOk BinaryMessage ''b2''),
        WriterRecv 0, Api ''b3'', Reader 0 ReadErr, Api ''b4'']" 1]
  by (simp add: run_eval)


subsection \<open>Frames written by the write loop\<close>

lemma drain:
  "length (buf (send s c)) = n \<Longrightarrow>
   \<exists>s'. run (replicate n (WriterRecv c)) s = Inr s'
      \<and> wrote c (trace s') = wrote c (trace s) @ map (Pair TextMessage) (buf (send s c))
      \<and> delivered c (trace s') = delivered c (trace s) @ buf (send s c)
      \<and> buf (send s' c) = []"
proof (induction n arbitrary: s)
  case 0
  then show ?case by simp
next
  case (Suc n)
  then obtain m rest where b: "buf (send s c) = m # rest" by (cases "buf (send s c)") auto
  let ?s1 = "writePump_recv c s"
  have s1: "buf (send ?s1 c) = rest" "wrote c (trace ?s1) = wrote c (trace s) @ [(TextMessage, m)]"
    "delivered c (trace ?s1) = delivered c (trace s) @ [m]"
    using b by (simp_all add: writePump_recv_def recv_def)
  have "length (buf (send ?s1 c)) = n" using Suc.prems b s1(1) by simp
  from Suc.IH[OF this] show ?case
    unfolding s1 b by simp
qed

lemma writePump_recv_frames:
  "\<exists>fs. wrote x (trace (writePump_recv c s)) = wrote x (trace s) @ fs
      \<and> delivered x (trace (writePump_recv c s))
           = delivered x (trace s) @ map snd (filter (\<lambda>f. fst f = TextMessage) fs)
      \<and> (\<forall>f \<in> set fs. fst f = TextMessage \<or> f = (CloseMessage, []))"
  by (auto simp: writePump_recv_def recv_def split: list.splits)

lemma step_frames:
  assumes "hub_inv s" "step e s = Inr s'"
  shows "\<exists>fs. wrote c (trace s') = wrote c (trace s) @ fs
      \<and> delivered c (trace s')
           = delivered c (trace s) @ map snd (filter (\<lambda>f. fst f = TextMessage) fs)
      \<and> (\<forall>f \<in> set fs. fst f = TextMessage \<or> f = (CloseMessage, []) \<or> f = (PingMessage, []))"
proof (cases e)
  case Connect
  then show ?thesis using assms(2) by (auto simp: ServeWs_eq)
next
  case (Reader c0 r)
  show ?thesis
  proof (cases r)
    case (ReadOk t m)
    then show ?thesis
      using Reader assms(2) Broadcast_eq[OF assms(1), of m]
      by (auto simp: readPump_round_def fanout_delivered fanout_wrote)
  next
    case ReadErr
    then show ?thesis
      using Reader assms(2) Unregister_live[OF assms(1), of c0]
      by (cases "live s c0") (auto simp: readPump_round_def)
  qed
next
  case (Api b)
  then show ?thesis
    using assms(2) Broadcast_eq[OF assms(1), of b]
    by (auto simp: fanout_delivered fanout_wrote)
next
  case (WriterRecv c0)
  then show ?thesis
    using assms(2) writePump_recv_frames[of c c0 s] by auto
next
  case (WriterTick c0)
  then show ?thesis using assms(2) by (auto simp: writePump_tick_def)
qed

lemma run_frames:
  assumes "hub_inv s" "run evs s = Inr s'"
    and "map snd (filter (\<lambda>f. fst f = TextMessage) (wrote c (trace s))) = delivered c (trace s)"
    and "\<forall>f \<in> set (wrote c (trace s)).
           fst f = TextMessage \<or> f = (CloseMessage, []) \<or> f = (PingMessage, [])"
  shows "map snd (filter (\<lambda>f. fst f = TextMessage) (wrote c (trace s'))) = delivered c (trace s')
     \<and> (\<forall>f \<in> set (wrote c (trace s')).
           fst f = TextMessage \<or> f = (CloseMessage, []) \<or> f = (PingMessage, []))"
  using assms
proof (induction evs arbitrary: s)
  case Nil
  then show ?case by simp
next
  case (Cons e evs)
  from step_inv[OF Cons.prems(1), of e] obtain s1 where s1: "step e s = Inr s1" "hub_inv s1"
    by blast
  have r: "run evs s1 = Inr s'" using Cons.prems(2) s1(1) by simp
  from step_frames[OF Cons.prems(1) s1(1), of c] obtain fs where fs:
    "wrote c (trace s1) = wrote c (trace s) @ fs"
    "delivered c (trace s1)
       = delivered c (trace s) @ map snd (filter (\<lambda>f. fst f = TextMessage) fs)"
    "\<forall>f \<in> set fs. fst f = TextMessage \<or> f = (CloseMessage, []) \<or> f = (PingMessage, [])"
    by blast
  have a: "map snd (filter (\<lambda>f. fst f = TextMessage) (wrote c (trace s1))) = delivered c (trace s1)"
    unfolding fs(1,2) using Cons.prems(3) by simp
  have b: "\<forall>f \<in> set (wrote c (trace s1)).
           fst f = TextMessage \<or> f = (CloseMessage, []) \<or> f = (PingMessage, [])"
    unfolding fs(1) using Cons.prems(4) fs(3) by auto
  show ?case by (rule Cons.IH[OF s1(2) r a b])
qed

text \<open>
  Claim C9. In every state reached from a new hub, the text frames written to a
  connection \<open>c'\<close> carry exactly the payloads its write loop received from the queue, in
  order, and every other frame it wrote is an empty close or ping frame: a payload from
  the queue is always written as a text frame. The read loop forwards the payload of a
  frame of any type \<open>t\<close> and forgets \<open>t\<close>. So when the read loop of \<open>c\<close> reads a frame
  \<open>(t, m)\<close>, for instance a binary one, and \<open>c'\<close> is live, \<open>m\<close> is the last entry of the
  queue of \<open>c'\<close>, and once the write loop of \<open>c'\<close> has drained the queue, every queued
  payload went out as a text frame and the last frame written is the text frame with
  the bytes \<open>m\<close>.
\<close>

theorem relayed_as_text_frame:
  "\<exists>s. run evs (NewHub opts) = Inr s
     \<and> map snd (filter (\<lambda>f. fst f = TextMessage) (wrote c' (trace s))) = delivered c' (trace s)
     \<and> (\<forall>f \<in> set (wrote c' (trace s)).
           fst f = TextMessage \<or> f = (CloseMessage, []) \<or> f = (PingMessage, []))
     \<and> readPump_round c (ReadOk t m) = Broadcast m
     \<and> (live s c' \<longrightarrow>
          (\<exists>s' s''. step (Reader c (ReadOk t m)) s = Inr s'
             \<and> buf (send s' c') \<noteq> [] \<and> last (buf (send s' c')) = m
             \<and> run (replicate (length (buf (send s' c'))) (WriterRecv c')) s' = Inr s''
             \<and> wrote c' (trace s'')
                  = wrote c' (trace s) @ map (Pair TextMessage) (buf (send s' c'))
             \<and> last (wrote c' (trace s'')) = (TextMessage, m)))"
proof -
  from run_NewHub[of evs opts] obtain s where s: "run evs (NewHub opts) = Inr s" "hub_inv s"
    by blast
  have fr: "map snd (filter (\<lambda>f. fst f = TextMessage) (wrote c' (trace s))) = delivered c' (trace s)
     \<and> (\<forall>f \<in> set (wrote c' (trace s)).
           fst f = TextMessage \<or> f = (CloseMessage, []) \<or> f = (PingMessage, []))"
    by (rule run_frames[OF NewHub_inv s(1)]) (simp_all add: NewHub_logs)
  have rd: "readPump_round c (ReadOk t m) = Broadcast m"
    by (simp add: readPump_round_def)
  have e2e: "\<exists>s' s''. step (Reader c (ReadOk t m)) s = Inr s'
             \<and> buf (send s' c') \<noteq> [] \<and> last (buf (send s' c')) = m
             \<and> run (replicate (length (buf (send s' c'))) (WriterRecv c')) s' = Inr s''
             \<and> wrote c' (trace s'')
                  = wrote c' (trace s) @ map (Pair TextMessage) (buf (send s' c'))
             \<and> last (wrote c' (trace s'')) = (TextMessage, m)" if lv: "live s c'"
  proof -
    let ?s' = "fanout m (map fst (clients s)) s"
    have st: "step (Reader c (ReadOk t m)) s = Inr ?s'"
      using Broadcast_eq[OF s(2), of m] by (simp add: rd)
    note b = Broadcast_live(2)[OF s(2) lv, of m]
    have ne: "buf (send ?s' c') \<noteq> []" "last (buf (send ?s' c')) = m"
      unfolding b by simp_all
    from drain[OF refl, of ?s' c'] obtain s'' where s'':
      "run (replicate (length (buf (send ?s' c'))) (WriterRecv c')) ?s' = Inr s''"
      "wrote c' (trace s'') = wrote c' (trace ?s') @ map (Pair TextMessage) (buf (send ?s' c'))"
      by blast
    have w: "wrote c' (trace s'') = wrote c' (trace s) @ map (Pair TextMessage) (buf (send ?s' c'))"
      using s''(2) by (simp add: fanout_wrote)
    have "last (wrote c' (trace s'')) = (TextMessage, m)"
      unfolding w using ne by (simp add: last_map)
    then show ?thesis using st ne s''(1) w by blast
  qed
  show ?thesis using s(1) fr rd e2e by blast
qed

text \<open>
  Connection 0 reads a binary frame; connection 1, which had one payload queued and
  had sent one ping, writes both payloads as text frames.
\<close>

theorem relayed_as_text_frame_witness:
  "live (projr (run [Connect, Connect, Api ''x'', WriterTick 1]
        (NewHub (None :: unit Options option)))) 1
   \<and> readPump_round 0 (ReadOk BinaryMessage ''bytes'') = Broadcast ''bytes''
   \<and> (\<exists>s' s''. step (Reader 0 (ReadOk BinaryMessage ''bytes''))
          (projr (run [Connect, Connect, Api ''x'', WriterTick 1]
             (NewHub (None :: unit Options option)))) = Inr s'
        \<and> buf (send s' 1) = [''x'', ''bytes'']
        \<and> run [WriterRecv 1, WriterRecv 1] s' = Inr s''
        \<and> wrote 1 (trace s'')
             = [(PingMessage, []), (TextMessage, ''x''), (TextMessage, ''bytes'')])"
  using relayed_as_text_frame [of "[Connect, Connect, Api ''x'', WriterTick 1]"
      "None :: unit Options option" 1 0 BinaryMessage "''bytes''"]
  by (simp add: run_eval)

subsection \<open>The sender is part of the fan-out\<close>

text \<open>
  Claim C10. In every state reached from a new hub, when the read loop of a live
  connection \<open>c\<close> forwards a payload \<open>m\<close>, the hub's round enqueues \<open>m\<close> onto the queue
  of every connection in the live set, \<open>c\<close> itself included, and onto no other queue:
  \<open>c\<close> is still live, \<open>m\<close> is the last entry of its queue, and when its write loop has
  drained the queue the last payload it received is \<open>m\<close>.
\<close>

theorem fanout_includes_sender:
  "\<exists>s. run evs (NewHub opts) = Inr s
     \<and> (live s c \<longrightarrow>
          (\<exists>s' s''. step (Reader c (ReadOk t m)) s = Inr s'
             \<and> live s' c
             \<and> enqs c (trace s') = enqs c (trace s) @ [m]
             \<and> buf (send s' c) \<noteq> [] \<and> last (buf (send s' c)) = m
             \<and> (\<forall>x. live s x \<longrightarrow>
                    live s' x \<and> enqs x (trace s') = enqs x (trace s) @ [m]
                    \<and> last (buf (send s' x)) = m)
             \<and> (\<forall>x. \<not> live s x \<longrightarrow> enqs x (trace s') = enqs x (trace s))
             \<and> run (replicate (length (buf (send s' c))) (WriterRecv c)) s' = Inr s''
             \<and> last (delivered c (trace s'')) = m))"
proof -
  from run_NewHub[of evs opts] obtain s where s: "run evs (NewHub opts) = Inr s" "hub_inv s"
    by blast
  have main: "\<exists>s' s''. step (Reader c (ReadOk t m)) s = Inr s'
             \<and> live s' c
             \<and> enqs c (trace s') = enqs c (trace s) @ [m]
             \<and> buf (send s' c) \<noteq> [] \<and> last (buf (send s' c)) = m
             \<and> (\<forall>x. live s x \<longrightarrow>
                    live s' x \<and> enqs x (trace s') = enqs x (trace s) @ [m]
                    \<and> last (buf (send s' x)) = m)
             \<and> (\<forall>x. \<not> live s x \<longrightarrow> enqs x (trace s') = enqs x (trace s))
             \<and> run (replicate (length (buf (send s' c))) (WriterRecv c)) s' = Inr s''
             \<and> last (delivered c (trace s'')) = m" if lv: "live s c"
  proof -
    let ?s' = "fanout m (map fst (clients s)) s"
    have st: "step (Reader c (ReadOk t m)) s = Inr ?s'"
      using Broadcast_eq[OF s(2), of m] by (simp add: readPump_round_def)
    have each: "live ?s' x \<and> enqs x (trace ?s') = enqs x (trace s) @ [m]
        \<and> buf (send ?s' x) \<noteq> [] \<and> last (buf (send ?s' x)) = m" if "live s x" for x
      using that Broadcast_live(1)[OF s(2) that, of m] Broadcast_enqs[OF s(2), of x m]
      unfolding Broadcast_live(2)[OF s(2) that, of m] by simp
    have others: "enqs x (trace ?s') = enqs x (trace s)" if "\<not> live s x" for x
      using that Broadcast_enqs[OF s(2), of x m] by simp
    from drain[OF refl, of ?s' c] obtain s'' where s'':
      "run (replicate (length (buf (send ?s' c))) (WriterRecv c)) ?s' = Inr s''"
      "delivered c (trace s'') = delivered c (trace ?s') @ buf (send ?s' c)"
      by blast
    have "last (delivered c (trace s'')) = m"
      unfolding s''(2) using each[OF lv] by simp
    then show ?thesis
      using st each[OF lv] each others s''(1) by blast
  qed
  show ?thesis using s(1) main by blast
qed

text \<open>
  Two connections; connection 0 sends \<open>hello\<close> and finds it in its own queue.
\<close>

theorem fanout_includes_sender_witness:
  "live (projr (run [Connect, Connect] (NewHub (None :: unit Options option)))) 0
   \<and> (\<exists>s' s''. step (Reader 0 (ReadOk TextMessage ''hello''))
          (projr (run [Connect, Connect] (NewHub (None :: unit Options option)))) = Inr s'
        \<and> live s' 0
        \<and> enqs 0 (trace s') = [''hello''] \<and> buf (send s' 0) = [''hello'']
        \<and> enqs 1 (trace s') = [''hello''] \<and> buf (send s' 1) = [''hello'']
        \<and> run [WriterRecv 0] s' = Inr s''
        \<and> delivered 0 (trace s'') = [''hello''])"
  using fanout_includes_sender [of "[Connect, Connect]" "None :: unit Options option" 0
      TextMessage "''hello''"]
  by (simp add: run_eval)

subsection \<open>The administrative broadcast endpoint\<close>

text \<open>
  Claim C6 as stated fails: the body \<^verbatim>\<open>{"message":""}\<close> contains the \<^verbatim>\<open>message\<close>
  string field, and the handler answers it with status 400 and hands nothing to the
  hub.
\<close>

theorem broadcastAPI_empty_message_counterexample:
  "map_of [(''message'', JStr '''')] ''message'' = Some (JStr '''')
   \<and> broadcastAPI (concat \<circ> map fst) ''2024-01-01T00:00:00Z''
         (Some (JObj [(''message'', JStr '''')]))
       = (\<lparr>status = 400, json = [(''error'', JStr ''message is required'')]\<rparr>, [])"
  by (simp add: broadcastAPI_def ShouldBindJSON_def decode_broadcastReq_def
      validate_required_def StatusBadRequest_def)

text \<open>
  Claim C6, amended. For a request whose body is a JSON object with a non-empty
  \<^verbatim>\<open>message\<close> string \<open>m\<close>, the handler hands to \<^verbatim>\<open>Hub.Broadcast\<close> exactly one payload,
  the serialization of the object with exactly the three members \<^verbatim>\<open>type\<close> (the string
  \<^verbatim>\<open>server_broadcast\<close>), \<^verbatim>\<open>message\<close> (\<open>m\<close>) and \<^verbatim>\<open>time\<close> (the formatted clock reading),
  and answers with status 200 and \<^verbatim>\<open>{"ok": true}\<close>. For a request whose object has no
  \<^verbatim>\<open>message\<close> member it answers with status 400, a client error, and hands nothing to
  the hub.
\<close>

theorem broadcastAPI_envelope:
  "(map_of members ''message'' = Some (JStr m) \<and> m \<noteq> '''' \<longrightarrow>
      broadcastAPI json_Marshal now (Some (JObj members))
        = (\<lparr>status = 200, json = [(''ok'', JBool True)]\<rparr>,
           [Broadcast (json_Marshal
              [(''type'', JStr ''server_broadcast''), (''message'', JStr m),
               (''time'', JStr now)])]))
   \<and> (map_of members ''message'' = None \<longrightarrow>
        snd (broadcastAPI json_Marshal now (Some (JObj members))) = []
        \<and> status (fst (broadcastAPI json_Marshal now (Some (JObj members)))) = 400
        \<and> 400 \<le> StatusBadRequest \<and> StatusBadRequest < 500)"
  by (simp add: broadcastAPI_def ShouldBindJSON_def decode_broadcastReq_def
      validate_required_def StatusBadRequest_def StatusOK_def)

text \<open>The two requests of the spec's scenario: \<^verbatim>\<open>{"message":"hi"}\<close> and \<^verbatim>\<open>{}\<close>.\<close>

theorem broadcastAPI_envelope_witness:
  "map_of [(''message'', JStr ''hi'')] ''message'' = Some (JStr ''hi'') \<and> ''hi'' \<noteq> ''''
   \<and> broadcastAPI (concat \<circ> map fst) ''2024-01-01T00:00:00Z''
         (Some (JObj [(''message'', JStr ''hi'')]))
       = (\<lparr>status = 200, json = [(''ok'', JBool True)]\<rparr>,
          [Broadcast ((concat \<circ> map fst)
             [(''type'', JStr ''server_broadcast''), (''message'', JStr ''hi''),
              (''time'', JStr ''2024-01-01T00:00:00Z'')])])
   \<and> map_of ([] :: (string \<times> jvalue) list) ''message'' = None
   \<and> snd (broadcastAPI (concat \<circ> map fst) ''2024-01-01T00:00:00Z'' (Some (JObj []))) = []
   \<and> status (fst (broadcastAPI (concat \<circ> map fst) ''2024-01-01T00:00:00Z''
         (Some (JObj [])))) = 400"
  using broadcastAPI_envelope [of "[(''message'', JStr ''hi'')]" "''hi''"
      "concat \<circ> map fst" "''2024-01-01T00:00:00Z''"]
    broadcastAPI_envelope [of "[]" "''hi''" "concat \<circ> map fst" "''2024-01-01T00:00:00Z''"]
  by simp

text \<open>
  Claim C8. A request whose body binds \<^verbatim>\<open>message\<close> to the empty string is rejected: the
  handler answers with status 400, a client error, and hands nothing to the hub. The
  handler accepts a body (status 200) only when its \<^verbatim>\<open>message\<close> is a non-empty string.
\<close>

theorem broadcastAPI_rejects_empty_message:
  "(map_of members ''message'' = Some (JStr '''') \<longrightarrow>
      broadcastAPI json_Marshal now (Some (JObj members))
        = (\<lparr>status = 400, json = [(''error'', JStr ''message is required'')]\<rparr>, []))
   \<and> (status (fst (broadcastAPI json_Marshal now body)) = 200 \<longrightarrow>
        (\<exists>members m. body = Some (JObj members)
           \<and> map_of members ''message'' = Some (JStr m) \<and> m \<noteq> ''''))"
  by (auto simp: broadcastAPI_def ShouldBindJSON_def decode_broadcastReq_def
      validate_required_def StatusBadRequest_def StatusOK_def
      split: option.splits jvalue.splits sum.splits if_splits)

theorem broadcastAPI_rejects_empty_message_witness:
  "map_of [(''message'', JStr ''''), (''other'', JNum 1)] ''message'' = Some (JStr '''')
   \<and> broadcastAPI (concat \<circ> map fst) ''2024-01-01T00:00:00Z''
        (Some (JObj [(''message'', JStr ''''), (''other'', JNum 1)]))
       = (\<lparr>status = 400, json = [(''error'', JStr ''message is required'')]\<rparr>, [])
   \<and> status (fst (broadcastAPI (concat \<circ> map fst) ''2024-01-01T00:00:00Z''
        (Some (JObj [(''message'', JStr ''x'')])))) = 200"
  using broadcastAPI_rejects_empty_message [of "[(''message'', JStr ''''), (''other'', JNum 1)]"
      "concat \<circ> map fst" "''2024-01-01T00:00:00Z''" "Some (JObj [(''message'', JStr ''x'')])"]
  by (simp add: broadcastAPI_def ShouldBindJSON_def decode_broadcastReq_def
      validate_required_def StatusOK_def)

end
